theory Spec2Isabelle
  imports Complex_Main "HOL-Library.Multiset"
begin

section \<open>JavaScript values\<close>



datatype error = TypeError | RangeError

type_synonym dateParser = "string \<Rightarrow> int option"

text \<open>An event as \<^verbatim>\<open>addEntry\<close> and \<^verbatim>\<open>fromCSV\<close> build it:
  \<^verbatim>\<open>{ id, type, time, amount, notes }\<close>, the last two \<^verbatim>\<open>undefined\<close> when absent.\<close>

record entry =
  id' :: string
  type' :: string
  time :: string
  amount :: "string option"
  notes' :: "string option"

text \<open>A plain object is the map of its own properties. A property read that misses
  the own properties falls through to \<^verbatim>\<open>Object.prototype\<close>, whose properties are all
  truthy (functions, and the object that \<^verbatim>\<open>__proto__\<close> yields).\<close>

type_synonym 'v obj = "string \<Rightarrow> 'v option"

text \<open>\<^verbatim>\<open>Object.fromEntries(pairs)\<close>: a later pair of the same key replaces an earlier
  one.\<close>

definition fromEntries :: "(string \<times> 'v) list \<Rightarrow> 'v obj" where
  "fromEntries ps = fold (\<lambda>p m. m(fst p \<mapsto> snd p)) ps Map.empty"

definition ObjectPrototype_keys :: "string list" where
  "ObjectPrototype_keys =
     [''constructor'', ''__defineGetter__'', ''__defineSetter__'', ''hasOwnProperty'',
      ''__lookupGetter__'', ''__lookupSetter__'', ''isPrototypeOf'',
      ''propertyIsEnumerable'', ''toString'', ''valueOf'', ''__proto__'',
      ''toLocaleString'']"

section \<open>Utilities\<close>

definition dq :: char where "dq = CHR 0x22"
definition comma :: char where "comma = CHR 0x2C"
definition LF :: char where "LF = CHR 0x0A"
definition CR :: char where "CR = CHR 0x0D"

text \<open>\<^verbatim>\<open>String(n)\<close> for a non-negative integer below \<open>10^21\<close>: its decimal digits.\<close>

fun String_nat :: "nat \<Rightarrow> string" where
  "String_nat n =
     (if n < 10 then [''0123456789'' ! n]
      else String_nat (n div 10) @ [''0123456789'' ! (n mod 10)])"

declare String_nat.simps [simp del]

text \<open>\<^verbatim>\<open>s.padStart(k, "0")\<close>\<close>

definition padStart :: "nat \<Rightarrow> string \<Rightarrow> string" where
  "padStart k s = replicate (k - length s) (CHR ''0'') @ s"

text \<open>\<^verbatim>\<open>const pad = (n) => String(n).padStart(2, "0")\<close>\<close>

definition pad :: "nat \<Rightarrow> string" where
  "pad n = padStart 2 (String_nat n)"

text \<open>\<^verbatim>\<open>parts.join(sep)\<close>\<close>

fun join :: "string \<Rightarrow> string list \<Rightarrow> string" where
  "join sep [] = []"
| "join sep [x] = x"
| "join sep (x # y # ys) = x @ sep @ join sep (y # ys)"

subsection \<open>The ISO format of \<^verbatim>\<open>toISOString\<close>\<close>


definition daysFromCivil :: "int \<Rightarrow> int \<Rightarrow> int \<Rightarrow> int" where
  "daysFromCivil y0 m d =
     (let y = (if m \<le> 2 then y0 - 1 else y0); era = y div 400; yoe = y mod 400;
          doy = (153 * (if m > 2 then m - 3 else m + 9) + 2) div 5 + d - 1;
          doe = yoe * 365 + yoe div 4 - yoe div 100 + doy
      in era * 146097 + doe - 719468)"

definition daysInMonth :: "int \<Rightarrow> int \<Rightarrow> int" where
  "daysInMonth y m =
     (if m = 2 then (if y mod 4 = 0 \<and> (y mod 100 \<noteq> 0 \<or> y mod 400 = 0) then 29 else 28)
      else if m = 4 \<or> m = 6 \<or> m = 9 \<or> m = 11 then 30 else 31)"


definition isDigit :: "char \<Rightarrow> bool" where
  "isDigit c = (c \<in> set ''0123456789'')"

fun readDigits :: "int \<Rightarrow> string \<Rightarrow> int" where
  "readDigits acc [] = acc"
| "readDigits acc (c # cs) = readDigits (acc * 10 + (of_char c - 48)) cs"

definition field :: "string \<Rightarrow> nat \<Rightarrow> nat \<Rightarrow> int option" where
  "field s i n =
     (let w = take n (drop i s)
      in if length w = n \<and> list_all isDigit w then Some (readDigits 0 w) else None)"

text \<open>The part of \<^verbatim>\<open>Date.parse\<close> that reads a string of exactly the shape
  \<^verbatim>\<open>YYYY-MM-DDTHH:mm:ss.sssZ\<close> with fields in range; every other string is rejected
  here (an engine may accept more).\<close>

definition isoParse :: dateParser where
  "isoParse s =
     (if length s = 24 \<and> s ! 4 = CHR ''-'' \<and> s ! 7 = CHR ''-'' \<and> s ! 10 = CHR ''T'' \<and>
         s ! 13 = CHR '':'' \<and> s ! 16 = CHR '':'' \<and> s ! 19 = CHR ''.'' \<and> s ! 23 = CHR ''Z''
      then (case (field s 0 4, field s 5 2, field s 8 2, field s 11 2, field s 14 2,
                  field s 17 2, field s 20 3) of
              (Some y, Some m, Some d, Some hh, Some mm, Some ss, Some ms) \<Rightarrow>
                 if 1 \<le> m \<and> m \<le> 12 \<and> 1 \<le> d \<and> d \<le> daysInMonth y m \<and> hh \<le> 23 \<and> mm \<le> 59 \<and> ss \<le> 59
                 then Some (daysFromCivil y m d * 86400000 + hh * 3600000 + mm * 60000 +
                            ss * 1000 + ms)
                 else None
            | _ \<Rightarrow> None)
      else None)"

section \<open>CSV codec\<close>

text \<open>\<^verbatim>\<open>const escape = (s) => '"' + String(s ?? "").replace(/"/g, '""') + '"'\<close>\<close>

definition escape :: "string \<Rightarrow> string" where
  "escape s = dq # concat (map (\<lambda>c. if c = dq then [dq, dq] else [c]) s) @ [dq]"

definition header :: "string list" where
  "header = [''id'', ''tipo'', ''hora'', ''cantidad'', ''notas'']"

text \<open>\<^verbatim>\<open>r.amount ?? ""\<close>\<close>

definition orEmpty :: "string option \<Rightarrow> string" where
  "orEmpty v = (case v of None \<Rightarrow> [] | Some s \<Rightarrow> s)"

definition rowFields :: "entry \<Rightarrow> string list" where
  "rowFields r = [id' r, type' r, time r, orEmpty (amount r), orEmpty (notes' r)]"

definition toCSV :: "entry list \<Rightarrow> string" where
  "toCSV rows =
     join [LF] (join [comma] header # map (\<lambda>r. join [comma] (map escape (rowFields r))) rows)"

text \<open>\<^verbatim>\<open>text.split(/\r?\n/)\<close>: a line ends at LF or at CR immediately followed by LF;
  a CR alone is an ordinary character.\<close>

fun splitLines :: "string \<Rightarrow> string list" where
  "splitLines [] = [[]]"
| "splitLines [c] = (if c = LF then [[], []] else [[c]])"
| "splitLines (c # d # cs) =
     (if c = LF then [] # splitLines (d # cs)
      else if c = CR \<and> d = LF then [] # splitLines cs
      else (case splitLines (d # cs) of l # ls \<Rightarrow> (c # l) # ls | [] \<Rightarrow> [[c]]))"

text \<open>\<^verbatim>\<open>h.split(',')\<close>\<close>

fun splitComma :: "string \<Rightarrow> string list" where
  "splitComma [] = [[]]"
| "splitComma (c # cs) =
     (if c = comma then [] # splitComma cs
      else (case splitComma cs of l # ls \<Rightarrow> (c # l) # ls | [] \<Rightarrow> [[c]]))"

text \<open>\<^verbatim>\<open>k.trim()\<close> removes white space and line terminators from both ends:
  U+0009..U+000D and U+0020 (one byte), U+00A0 (two bytes) and U+1680, U+2000..U+200A,
  U+2028, U+2029, U+202F, U+205F, U+3000, U+FEFF (three bytes).\<close>

definition isWs1 :: "char \<Rightarrow> bool" where
  "isWs1 a = (a \<in> set [CHR 0x09, CHR 0x0A, CHR 0x0B, CHR 0x0C, CHR 0x0D, CHR 0x20])"

definition isWs2 :: "char \<Rightarrow> char \<Rightarrow> bool" where
  "isWs2 a b = (a = CHR 0xC2 \<and> b = CHR 0xA0)"

definition isWs3 :: "char \<Rightarrow> char \<Rightarrow> char \<Rightarrow> bool" where
  "isWs3 a b c =
     ((a = CHR 0xE1 \<and> b = CHR 0x9A \<and> c = CHR 0x80) \<or>
      (a = CHR 0xE2 \<and> b = CHR 0x80 \<and>
         (of_char c \<in> {0x80 .. 0x8A :: nat} \<or> c = CHR 0xA8 \<or> c = CHR 0xA9 \<or> c = CHR 0xAF)) \<or>
      (a = CHR 0xE2 \<and> b = CHR 0x81 \<and> c = CHR 0x9F) \<or>
      (a = CHR 0xE3 \<and> b = CHR 0x80 \<and> c = CHR 0x80) \<or>
      (a = CHR 0xEF \<and> b = CHR 0xBB \<and> c = CHR 0xBF))"

fun trimStart :: "string \<Rightarrow> string" where
  "trimStart (a # b # c # s) =
     (if isWs1 a then trimStart (b # c # s)
      else if isWs2 a b then trimStart (c # s)
      else if isWs3 a b c then trimStart s
      else a # b # c # s)"
| "trimStart [a, b] = (if isWs1 a then trimStart [b] else if isWs2 a b then [] else [a, b])"
| "trimStart [a] = (if isWs1 a then [] else [a])"
| "trimStart [] = []"

fun trimEndRev :: "string \<Rightarrow> string" where
  "trimEndRev (c # b # a # s) =
     (if isWs1 c then trimEndRev (b # a # s)
      else if isWs2 b c then trimEndRev (a # s)
      else if isWs3 a b c then trimEndRev s
      else c # b # a # s)"
| "trimEndRev [c, b] = (if isWs1 c then trimEndRev [b] else if isWs2 b c then [] else [c, b])"
| "trimEndRev [c] = (if isWs1 c then [] else [c])"
| "trimEndRev [] = []"

definition trim :: "string \<Rightarrow> string" where
  "trim s = rev (trimEndRev (rev (trimStart s)))"

text \<open>\<^verbatim>\<open>Object.fromEntries(h.split(',').map((k, i) => [k.trim(), i]))\<close>\<close>

definition headerIndex :: "string \<Rightarrow> nat obj" where
  "headerIndex h = fromEntries (map (\<lambda>(i, k). (trim k, i)) (List.enumerate 0 (splitComma h)))"

text \<open>The scanner of one line, the loop
  \<^verbatim>\<open>for (let i=0;i<line.length;i++)\<close> with its state \<^verbatim>\<open>inQ\<close>, \<^verbatim>\<open>cur\<close> and the
  columns pushed so far returned in front.\<close>

fun scan :: "bool \<Rightarrow> string \<Rightarrow> string \<Rightarrow> string list" where
  "scan inQ cur [] = [cur]"
| "scan inQ cur [ch] =
     (if ch = dq then scan (\<not> inQ) cur []
      else if ch = comma \<and> \<not> inQ then cur # scan inQ [] []
      else scan inQ (cur @ [ch]) [])"
| "scan inQ cur (ch # nx # rest) =
     (if ch = dq then
        (if inQ \<and> nx = dq then scan inQ (cur @ [dq]) rest
         else scan (\<not> inQ) cur (nx # rest))
      else if ch = comma \<and> \<not> inQ then cur # scan inQ [] (nx # rest)
      else scan inQ (cur @ [ch]) (nx # rest))"

definition splitRow :: "string \<Rightarrow> string list" where
  "splitRow line = scan False [] line"

text \<open>\<^verbatim>\<open>const get = (k) => cols[idx[k]] ?? ""\<close>. None of the five column names is a
  property of \<^verbatim>\<open>Object.prototype\<close>, so a name that is not in the header reads
  \<^verbatim>\<open>undefined\<close>, and so does an index past the end of \<^verbatim>\<open>cols\<close>.\<close>

definition get :: "nat obj \<Rightarrow> string list \<Rightarrow> string \<Rightarrow> string" where
  "get idx cols k =
     (case idx k of None \<Rightarrow> []
      | Some i \<Rightarrow> if i < length cols then cols ! i else [])"

text \<open>\<^verbatim>\<open>get("cantidad") || undefined\<close>\<close>

definition orUndefined :: "string \<Rightarrow> string option" where
  "orUndefined s = (if s = [] then None else Some s)"

definition rowEntry :: "nat obj \<Rightarrow> string \<Rightarrow> entry" where
  "rowEntry idx line =
     (let cols = splitRow line
      in \<lparr> id' = get idx cols ''id'', type' = get idx cols ''tipo'',
           time = get idx cols ''hora'',
           amount = orUndefined (get idx cols ''cantidad''),
           notes' = orUndefined (get idx cols ''notas'') \<rparr>)"

text \<open>\<^verbatim>\<open>fromCSV\<close> on the text of the file. With no non-empty line \<^verbatim>\<open>h\<close> is
  \<^verbatim>\<open>undefined\<close> and \<^verbatim>\<open>h.split\<close> throws a TypeError.\<close>

definition fromCSV :: "string \<Rightarrow> error + entry list" where
  "fromCSV text =
     (case filter (\<lambda>l. l \<noteq> []) (splitLines text) of
        [] \<Rightarrow> Inl TypeError
      | h # rest \<Rightarrow> Inr (map (rowEntry (headerIndex h)) rest))"

section \<open>Sorting by time, newest first\<close>

text \<open>The comparator \<^verbatim>\<open>(a,b) => new Date(b.time) - new Date(a.time)\<close>; \<open>None\<close> is NaN.\<close>

definition byTimeDesc :: "dateParser \<Rightarrow> entry \<Rightarrow> entry \<Rightarrow> int option" where
  "byTimeDesc parse a b =
     (case (parse (time b), parse (time a)) of
        (Some tb, Some ta) \<Rightarrow> Some (tb - ta)
      | _ \<Rightarrow> None)"

text \<open>\<^verbatim>\<open>Array.prototype.sort\<close> is stable and reads a NaN from the comparator as 0.
  It is modelled as a stable insertion sort: an element moves behind its right
  neighbour only when the comparator is positive. For a consistent comparator the
  language fixes the result, and every stable sort computes it. With unparseable times
  the comparator is not consistent and the language leaves the order to the engine; the
  model then does what a sort does that compares neighbours (V8 finds the array to be
  one run and leaves it), and on two elements there is no other outcome.\<close>

definition positive :: "int option \<Rightarrow> bool" where
  "positive v = (case v of None \<Rightarrow> False | Some d \<Rightarrow> 0 < d)"

fun insertBy :: "('a \<Rightarrow> 'a \<Rightarrow> int option) \<Rightarrow> 'a \<Rightarrow> 'a list \<Rightarrow> 'a list" where
  "insertBy cmp x [] = [x]"
| "insertBy cmp x (y # ys) =
     (if positive (cmp x y) then y # insertBy cmp x ys else x # y # ys)"

definition sortBy :: "('a \<Rightarrow> 'a \<Rightarrow> int option) \<Rightarrow> 'a list \<Rightarrow> 'a list" where
  "sortBy cmp xs = foldr (insertBy cmp) xs []"

section \<open>Pure helpers\<close>

definition TYPES :: "string list" where
  "TYPES = [''leche'', ''simeticona'', ''vitamina'', ''panal'']"

text \<open>\<^verbatim>\<open>Object.fromEntries(TYPES.map(t => [t.key, null]))\<close>; \<^verbatim>\<open>null\<close> is \<open>None\<close>.\<close>

definition nullByType :: "('v option) obj" where
  "nullByType = fromEntries (map (\<lambda>k. (k, None)) TYPES)"

text \<open>Whether \<^verbatim>\<open>map[k]\<close> is truthy.\<close>

definition truthyAt :: "(entry option) obj \<Rightarrow> string \<Rightarrow> bool" where
  "truthyAt m k =
     (case m k of Some v \<Rightarrow> v \<noteq> None | None \<Rightarrow> k \<in> set ObjectPrototype_keys)"

text \<open>\<^verbatim>\<open>for (const e of sorted){ if (!map[e.type]) map[e.type] = e; }\<close>\<close>

definition assignFirst :: "entry \<Rightarrow> (entry option) obj \<Rightarrow> (entry option) obj" where
  "assignFirst e m = (if truthyAt m (type' e) then m else m(type' e \<mapsto> Some e))"

definition computeLastByType :: "dateParser \<Rightarrow> entry list \<Rightarrow> (entry option) obj" where
  "computeLastByType parse entries =
     fold assignFirst (sortBy (byTimeDesc parse) entries) nullByType"











definition unknown :: string where
  "unknown = ''--:--:--''"

text \<open>The string \<^verbatim>\<open>"\<exclamdown>Ahora!"\<close>; the inverted exclamation mark is U+00A1.\<close>

definition ahora :: string where
  "ahora = CHR 0xC2 # CHR 0xA1 # ''Ahora!''"

text \<open>\<^verbatim>\<open>diffToCountdown(isoUntil)\<close> with \<^verbatim>\<open>Date.now()\<close> as the argument \<open>now\<close>. The
  argument is a due time of \<^verbatim>\<open>computeNextDue\<close>, a string or \<^verbatim>\<open>null\<close>. With
  \<open>0 \<le> now\<close>, as a clock gives it, \<open>ms\<close> stays below \<open>2^53\<close> and the double
  subtraction, division and floor are the integer ones.\<close>

definition diffToCountdown :: "dateParser \<Rightarrow> int \<Rightarrow> string option \<Rightarrow> string" where
  "diffToCountdown parse now isoUntil =
     (case isoUntil of
        None \<Rightarrow> unknown
      | Some u \<Rightarrow>
          if u = [] then unknown
          else (case parse u of
                  None \<Rightarrow> unknown
                | Some t \<Rightarrow>
                    let ms = t - now
                    in if ms \<le> 0 then ahora
                       else let s = ms div 1000; h = s div 3600; m = (s mod 3600) div 60;
                                ss = s mod 60
                            in pad (nat h) @ '':'' @ pad (nat m) @ '':'' @ pad (nat ss)))"

section \<open>Import\<close>

text \<open>The state update of \<^verbatim>\<open>handleImport\<close>:
  \<^verbatim>\<open>existing = new Set(prev.map(x=>x.id))\<close>,
  \<^verbatim>\<open>merged = [...prev, ...rows.filter(r=>!existing.has(r.id))]\<close>, sorted newest first.\<close>

definition mergeImport :: "dateParser \<Rightarrow> entry list \<Rightarrow> entry list \<Rightarrow> entry list" where
  "mergeImport parse prev rows =
     (let existing = set (map id' prev);
          merged = prev @ filter (\<lambda>r. id' r \<notin> existing) rows
      in sortBy (byTimeDesc parse) merged)"

text \<open>\<^verbatim>\<open>handleImport\<close> on the text of the chosen file: a failed \<^verbatim>\<open>fromCSV\<close> is caught
  and leaves the entries as they were.\<close>

definition handleImport :: "dateParser \<Rightarrow> entry list \<Rightarrow> string \<Rightarrow> entry list" where
  "handleImport parse prev text =
     (case fromCSV text of Inl err \<Rightarrow> prev | Inr rows \<Rightarrow> mergeImport parse prev rows)"

section \<open>Reading a countdown back\<close>

text \<open>The number of seconds that a countdown text \<^verbatim>\<open>H..:MM:SS\<close> displays; it is not
  part of the program and serves to state how the display moves.\<close>

definition displayedSeconds :: "string \<Rightarrow> int option" where
  "displayedSeconds s =
     (let hh = takeWhile (\<lambda>c. c \<noteq> CHR '':'') s; r = drop (Suc (length hh)) s;
          mm = takeWhile (\<lambda>c. c \<noteq> CHR '':'') r; ss = drop (Suc (length mm)) r
      in if hh \<noteq> [] \<and> mm \<noteq> [] \<and> ss \<noteq> [] \<and> list_all isDigit (hh @ mm @ ss)
         then Some (readDigits 0 hh * 3600 + readDigits 0 mm * 60 + readDigits 0 ss)
         else None)"

section \<open>Notions used in the statements\<close>

subsection \<open>Aggregation\<close>

text \<open>The key under which the library's stable \<open>sort_key\<close> orders a log newest first.\<close>

definition negTime :: "dateParser \<Rightarrow> entry \<Rightarrow> int" where
  "negTime parse e = - the (parse (time e))"


subsection \<open>CSV codec\<close>

text \<open>The doubling of quotes inside \<^verbatim>\<open>escape\<close>.\<close>

definition esc :: "string \<Rightarrow> string" where
  "esc s = concat (map (\<lambda>c. if c = dq then [dq, dq] else [c]) s)"

text \<open>The event that a row denotes once its values are looked up by column name: a
  missing name reads as the empty string, and an empty amount or note is absent.\<close>

definition getOr :: "(string \<Rightarrow> string option) \<Rightarrow> string \<Rightarrow> string" where
  "getOr m k = (case m k of None \<Rightarrow> [] | Some v \<Rightarrow> v)"

definition recordOf :: "(string \<Rightarrow> string option) \<Rightarrow> entry" where
  "recordOf m =
     \<lparr> id' = getOr m ''id'', type' = getOr m ''tipo'', time = getOr m ''hora'',
       amount = orUndefined (getOr m ''cantidad''), notes' = orUndefined (getOr m ''notas'') \<rparr>"

text \<open>\<^verbatim>\<open>cols[i] ?? ""\<close> for an index counted from \<open>n\<close>.\<close>

definition pick :: "nat \<Rightarrow> string list \<Rightarrow> nat option \<Rightarrow> string" where
  "pick n vs io =
     (case io of None \<Rightarrow> [] | Some i \<Rightarrow> if i - n < length vs then vs ! (i - n) else [])"

text \<open>The collapse of an amount or note that is the empty string to an absent one.\<close>

definition collapse :: "entry \<Rightarrow> entry" where
  "collapse r = r\<lparr> amount := orUndefined (orEmpty (amount r)),
                  notes' := orUndefined (orEmpty (notes' r)) \<rparr>"

section \<open>Sample data\<close>

text \<open>The log and the intervals of the self-tests of \<^verbatim>\<open>App.jsx\<close>, with \<^verbatim>\<open>tNow\<close> fixed at
  2024-01-01T12:00:00.000Z: feedings two hours and one hour ago, a dose seven hours ago,
  a diaper change half an hour ago.\<close>

definition a1 :: entry where
  "a1 = \<lparr> id' = ''a1'', type' = ''leche'', time = ''2024-01-01T10:00:00.000Z'',
           amount = Some ''90'', notes' = None \<rparr>"

definition a2 :: entry where
  "a2 = \<lparr> id' = ''a2'', type' = ''leche'', time = ''2024-01-01T11:00:00.000Z'',
           amount = Some ''120'', notes' = None \<rparr>"

definition b1 :: entry where
  "b1 = \<lparr> id' = ''b1'', type' = ''simeticona'', time = ''2024-01-01T05:00:00.000Z'',
           amount = None, notes' = None \<rparr>"

definition c1 :: entry where
  "c1 = \<lparr> id' = ''c1'', type' = ''panal'', time = ''2024-01-01T11:30:00.000Z'',
           amount = None, notes' = None \<rparr>"

definition mock :: "entry list" where
  "mock = [a1, a2, b1, c1]"


text \<open>A feeding whose timestamp no engine parses.\<close>

definition malformed :: entry where
  "malformed =
     \<lparr> id' = ''m1'', type' = ''leche'', time = ''garbage'', amount = None, notes' = None \<rparr>"


text \<open>Events of categories outside the four keys, as an imported file can hold them.\<close>

definition x1 :: entry where
  "x1 = \<lparr> id' = ''x1'', type' = ''toString'', time = ''2024-01-01T10:00:00.000Z'',
           amount = None, notes' = None \<rparr>"

definition x2 :: entry where
  "x2 = \<lparr> id' = ''x2'', type' = ''siesta'', time = ''2024-01-01T10:00:00.000Z'',
           amount = None, notes' = None \<rparr>"

definition x3 :: entry where
  "x3 = \<lparr> id' = ''x3'', type' = ''siesta'', time = ''2024-01-01T11:00:00.000Z'',
           amount = None, notes' = None \<rparr>"

definition withUnknown :: "entry list" where
  "withUnknown = [x1, x2, x3]"

text \<open>A diaper change with a note of two lines; a CSV text whose second column holds a
  quoted value of two lines; the quoted field \<^verbatim>\<open>"He said ""hi"""\<close>; a header in another
  order, with an unknown column, without the amount and with white space around two
  names.\<close>

definition twoLineNote :: entry where
  "twoLineNote = \<lparr> id' = ''n1'', type' = ''panal'', time = ''2024-01-01T11:30:00.000Z'',
           amount = None, notes' = Some (''a'' @ [LF] @ ''b'') \<rparr>"

definition quotedNewline :: string where
  "quotedNewline =
     ''id,notas'' @ [LF] @
     [dq] @ ''q1'' @ [dq, comma, dq] @ ''line1'' @ [LF] @ ''line2'' @ [dq]"

definition heSaid :: string where
  "heSaid = [dq] @ ''He said '' @ [dq, dq] @ ''hi'' @ [dq, dq, dq]"

definition shuffled :: "string list" where
  "shuffled = [''notas'', '' hora'', ''extra '', ''id'', ''tipo'']"

section \<open>Decimal digits and padding\<close>

lemma lt10_cases: "n < 10 \<Longrightarrow> n \<in> set [0, 1, 2, 3, 4, 5, 6, 7, 8, 9 :: nat]"
  by (simp, arith)

lemma digit_char: "n < 10 \<Longrightarrow> of_char (''0123456789'' ! n) = (48 + int n)"
  by (drule lt10_cases) auto

lemma digit_isDigit: "n < 10 \<Longrightarrow> isDigit (''0123456789'' ! n)"
  by (drule lt10_cases) (auto simp: isDigit_def)

lemma String_nat_digits: "list_all isDigit (String_nat n)"
proof (induction n rule: String_nat.induct)
  case (1 n)
  show ?case
  proof (cases "n < 10")
    case True
    then show ?thesis by (simp add: String_nat.simps [of n] digit_isDigit)
  next
    case False
    with 1 show ?thesis by (simp add: String_nat.simps [of n] digit_isDigit)
  qed
qed

lemma readDigits_snoc: "readDigits a (xs @ [c]) = readDigits a xs * 10 + (of_char c - 48)"
  by (induction xs arbitrary: a) simp_all

lemma readDigits_String_nat: "readDigits 0 (String_nat n) = int n"
proof (induction n rule: String_nat.induct)
  case (1 n)
  show ?case
  proof (cases "n < 10")
    case True
    then show ?thesis by (simp add: String_nat.simps [of n] digit_char)
  next
    case False
    then have "readDigits 0 (String_nat n) = int (n div 10) * 10 + int (n mod 10)"
      using 1 by (simp add: String_nat.simps [of n] readDigits_snoc digit_char)
    then show ?thesis by (simp add: zdiv_int zmod_int)
  qed
qed

lemma length_String_nat_lt10: "n < 10 \<Longrightarrow> length (String_nat n) = 1"
  by (simp add: String_nat.simps [of n])

lemma String_nat_nonempty: "String_nat n \<noteq> []"
  by (simp add: String_nat.simps [of n])

lemma length_String_nat_ge100: "100 \<le> n \<Longrightarrow> 3 \<le> length (String_nat n)"
proof -
  assume a: "100 \<le> n"
  then have b: "10 \<le> n div 10" by simp
  have "length (String_nat n) = Suc (length (String_nat (n div 10)))"
    using a by (simp add: String_nat.simps [of n])
  also have "length (String_nat (n div 10)) = Suc (length (String_nat (n div 10 div 10)))"
    using b by (simp add: String_nat.simps [of "n div 10"])
  finally show ?thesis using String_nat_nonempty [of "n div 10 div 10"]
    by (cases "String_nat (n div 10 div 10)") simp_all
qed

lemma pad_lt100: "n < 100 \<Longrightarrow> pad n = [''0123456789'' ! (n div 10), ''0123456789'' ! (n mod 10)]"
proof (cases "n < 10")
  case True
  then show ?thesis by (simp add: pad_def padStart_def String_nat.simps [of n])
next
  case False
  assume "n < 100"
  with False have "n div 10 < 10" by simp
  with False show ?thesis
    by (simp add: pad_def padStart_def String_nat.simps [of n] String_nat.simps [of "n div 10"])
qed

lemma pad_ge100: "100 \<le> n \<Longrightarrow> pad n = String_nat n"
  using length_String_nat_ge100 [of n] by (simp add: pad_def padStart_def)

section \<open>The countdown\<close>

lemma isDigit_not_colon: "isDigit c \<Longrightarrow> c \<noteq> CHR '':''"
  by (auto simp: isDigit_def)

lemma takeWhile_digits:
  "list_all isDigit xs \<Longrightarrow> takeWhile (\<lambda>c. c \<noteq> CHR '':'') (xs @ CHR '':'' # ys) = xs"
  by (induction xs) (simp_all add: isDigit_not_colon)

lemma zeros_digits: "list_all isDigit (replicate k (CHR ''0''))"
  by (induction k) (simp_all add: isDigit_def)

lemma pad_digits: "list_all isDigit (pad n)"
  by (simp add: pad_def padStart_def String_nat_digits zeros_digits)

lemma readDigits_zeros: "readDigits 0 (replicate k (CHR ''0'') @ s) = readDigits 0 s"
  by (induction k) simp_all

lemma readDigits_pad: "readDigits 0 (pad n) = int n"
  by (simp add: pad_def padStart_def readDigits_zeros readDigits_String_nat)

lemma pad_nonempty: "pad n \<noteq> []"
  by (simp add: pad_def padStart_def String_nat_nonempty)

lemma displayedSeconds_pads:
  "displayedSeconds (pad h @ '':'' @ pad m @ '':'' @ pad s) = Some (int h * 3600 + int m * 60 + int s)"
proof -
  have 1: "takeWhile (\<lambda>c. c \<noteq> CHR '':'') (pad h @ CHR '':'' # pad m @ CHR '':'' # pad s) = pad h"
    by (rule takeWhile_digits [OF pad_digits])
  have 2: "takeWhile (\<lambda>c. c \<noteq> CHR '':'') (pad m @ CHR '':'' # pad s) = pad m"
    by (rule takeWhile_digits [OF pad_digits])
  show ?thesis
    by (simp add: displayedSeconds_def 1 2 Let_def pad_nonempty pad_digits readDigits_pad)
qed

lemma hms_sum: "0 \<le> (s::int) \<Longrightarrow> s div 3600 * 3600 + s mod 3600 div 60 * 60 + s mod 60 = s"
proof -
  have a: "s mod 3600 mod 60 = s mod 60" by (simp add: mod_mod_cancel)
  have "s = s div 3600 * 3600 + s mod 3600" by simp
  also have "s mod 3600 = s mod 3600 div 60 * 60 + s mod 3600 mod 60" by simp
  finally show ?thesis using a by simp
qed

lemma countdown_positive:
  assumes "u \<noteq> []" "parse u = Some t" "0 < t - now"
  shows "diffToCountdown parse now (Some u) =
     pad (nat ((t - now) div 1000 div 3600)) @ '':'' @ pad (nat ((t - now) div 1000 mod 3600 div 60)) @ '':'' @
     pad (nat ((t - now) div 1000 mod 60))"
  using assms by (simp add: diffToCountdown_def Let_def)

lemma countdown_readback:
  assumes "u \<noteq> []" "parse u = Some t" "0 < t - now"
  shows "displayedSeconds (diffToCountdown parse now (Some u)) = Some ((t - now) div 1000)"
proof -
  let ?s = "(t - now) div 1000"
  have s: "0 \<le> ?s" using assms(3) by simp
  have "displayedSeconds (diffToCountdown parse now (Some u)) =
     Some (int (nat (?s div 3600)) * 3600 + int (nat (?s mod 3600 div 60)) * 60 + int (nat (?s mod 60)))"
    unfolding countdown_positive [of u parse t now, OF assms] by (rule displayedSeconds_pads)
  also have "\<dots> = Some (?s div 3600 * 3600 + ?s mod 3600 div 60 * 60 + ?s mod 60)"
    using s by (simp add: pos_imp_zdiv_nonneg_iff)
  also have "\<dots> = Some ?s" using hms_sum [OF s] by simp
  finally show ?thesis .
qed

lemma pad_not_ahora: "pad h @ '':'' @ rest \<noteq> ahora"
proof
  assume a: "pad h @ '':'' @ rest = ahora"
  have "isDigit (hd (pad h))" using pad_digits [of h] pad_nonempty [of h]
    by (cases "pad h") simp_all
  moreover have "hd (pad h @ '':'' @ rest) = hd (pad h)" using pad_nonempty [of h] by simp
  ultimately have "isDigit (hd ahora)" using a by simp
  then show False by (simp add: ahora_def isDigit_def)
qed

lemma countdown_ahora_iff:
  assumes "u \<noteq> []" "parse u = Some t"
  shows "diffToCountdown parse now (Some u) = ahora \<longleftrightarrow> t - now \<le> 0"
proof (cases "t - now \<le> 0")
  case True
  with assms show ?thesis by (simp add: diffToCountdown_def)
next
  case False
  then have "0 < t - now" by simp
  from countdown_positive [of u parse t now, OF assms this] pad_not_ahora False show ?thesis by simp
qed

lemma parse_ex1: "isoParse ''2024-01-02T06:00:00.000Z'' = Some 1704175200000"
  by code_simp

lemma parse_ex2: "isoParse ''2024-01-05T04:00:00.000Z'' = Some 1704427200000"
  by code_simp

lemma parse_garbage: "isoParse ''garbage'' = None"
  by (simp add: isoParse_def)

text \<open>
  Claim C7, amended. \<^verbatim>\<open>diffToCountdown\<close> gives \<^verbatim>\<open>--:--:--\<close> for an absent, empty or
  unparseable target and the due-now text when target minus now is at most zero. For a
  positive difference it drops the milliseconds below a second and writes hours, minutes
  and seconds separated by colons: minutes and seconds always as two digits, the hours
  zero-padded to two digits and not capped, so 30 hours give \<^verbatim>\<open>30:00:00\<close>. The text is
  eight characters wide exactly when the wait is below 100 hours; from 100 hours on the
  hours take as many digits as the number has.
\<close>

theorem diffToCountdown_format:
  "diffToCountdown parse now None = ''--:--:--'' \<and>
   diffToCountdown parse now (Some []) = ''--:--:--'' \<and>
   (parse u = None \<longrightarrow> diffToCountdown parse now (Some u) = ''--:--:--'') \<and>
   (u \<noteq> [] \<and> parse u = Some t \<and> t - now \<le> 0 \<longrightarrow>
      diffToCountdown parse now (Some u) = ahora) \<and>
   (u \<noteq> [] \<and> parse u = Some t \<and> 0 < t - now \<longrightarrow>
      (let s = (t - now) div 1000; h = nat (s div 3600); m = nat (s mod 3600 div 60);
           ss = nat (s mod 60)
       in diffToCountdown parse now (Some u) =
            (if h < 100 then [''0123456789'' ! (h div 10), ''0123456789'' ! (h mod 10)]
             else String_nat h) @ '':'' @
            [''0123456789'' ! (m div 10), ''0123456789'' ! (m mod 10)] @ '':'' @
            [''0123456789'' ! (ss div 10), ''0123456789'' ! (ss mod 10)] \<and>
          list_all isDigit (String_nat h) \<and> readDigits 0 (String_nat h) = int h \<and>
          (length (diffToCountdown parse now (Some u)) = 8 \<longleftrightarrow> h < 100))) \<and>
   (u \<noteq> [] \<and> parse u = Some t \<and> t - now = 30 * 3600 * 1000 \<longrightarrow>
      diffToCountdown parse now (Some u) = ''30:00:00'')"
proof -
  have a: "diffToCountdown parse now None = ''--:--:--''"
    by (simp add: diffToCountdown_def unknown_def)
  have b: "diffToCountdown parse now (Some []) = ''--:--:--''"
    by (simp add: diffToCountdown_def unknown_def)
  have c: "parse u = None \<longrightarrow> diffToCountdown parse now (Some u) = ''--:--:--''"
    by (simp add: diffToCountdown_def unknown_def)
  have d: "u \<noteq> [] \<and> parse u = Some t \<and> t - now \<le> 0 \<longrightarrow>
      diffToCountdown parse now (Some u) = ahora"
    by (simp add: diffToCountdown_def)
  have e: "u \<noteq> [] \<and> parse u = Some t \<and> 0 < t - now \<longrightarrow>
      (let s = (t - now) div 1000; h = nat (s div 3600); m = nat (s mod 3600 div 60);
           ss = nat (s mod 60)
       in diffToCountdown parse now (Some u) =
            (if h < 100 then [''0123456789'' ! (h div 10), ''0123456789'' ! (h mod 10)]
             else String_nat h) @ '':'' @
            [''0123456789'' ! (m div 10), ''0123456789'' ! (m mod 10)] @ '':'' @
            [''0123456789'' ! (ss div 10), ''0123456789'' ! (ss mod 10)] \<and>
          list_all isDigit (String_nat h) \<and> readDigits 0 (String_nat h) = int h \<and>
          (length (diffToCountdown parse now (Some u)) = 8 \<longleftrightarrow> h < 100))"
  proof
    assume h: "u \<noteq> [] \<and> parse u = Some t \<and> 0 < t - now"
    define s where "s = (t - now) div 1000"
    define hh where "hh = nat (s div 3600)"
    define mm where "mm = nat (s mod 3600 div 60)"
    define ss where "ss = nat (s mod 60)"
    have s0: "0 \<le> s" using h by (simp add: s_def pos_imp_zdiv_nonneg_iff)
    have m60: "mm < 100" using s0 by (simp add: mm_def)
    have s60: "ss < 100" using s0 by (simp add: ss_def)
    have r: "diffToCountdown parse now (Some u) = pad hh @ '':'' @ pad mm @ '':'' @ pad ss"
      using h countdown_positive [of u parse t now] by (simp add: s_def hh_def mm_def ss_def)
    have ph: "pad hh = (if hh < 100 then [''0123456789'' ! (hh div 10), ''0123456789'' ! (hh mod 10)]
             else String_nat hh)"
      by (simp add: pad_lt100 pad_ge100)
    have len: "length (pad hh) = 2 \<longleftrightarrow> hh < 100"
    proof (cases "hh < 100")
      case True
      then show ?thesis by (simp add: pad_lt100)
    next
      case False
      then have "3 \<le> length (pad hh)"
        using length_String_nat_ge100 [of hh] by (simp add: pad_ge100)
      with False show ?thesis by simp
    qed
    have "diffToCountdown parse now (Some u) =
            (if hh < 100 then [''0123456789'' ! (hh div 10), ''0123456789'' ! (hh mod 10)]
             else String_nat hh) @ '':'' @
            [''0123456789'' ! (mm div 10), ''0123456789'' ! (mm mod 10)] @ '':'' @
            [''0123456789'' ! (ss div 10), ''0123456789'' ! (ss mod 10)]"
      unfolding r ph [symmetric] by (simp add: pad_lt100 [OF m60] pad_lt100 [OF s60])
    moreover have "length (diffToCountdown parse now (Some u)) = 8 \<longleftrightarrow> hh < 100"
      unfolding r using len by (simp add: pad_lt100 [OF m60] pad_lt100 [OF s60])
    ultimately show "let s = (t - now) div 1000; h = nat (s div 3600); m = nat (s mod 3600 div 60);
           ss = nat (s mod 60)
       in diffToCountdown parse now (Some u) =
            (if h < 100 then [''0123456789'' ! (h div 10), ''0123456789'' ! (h mod 10)]
             else String_nat h) @ '':'' @
            [''0123456789'' ! (m div 10), ''0123456789'' ! (m mod 10)] @ '':'' @
            [''0123456789'' ! (ss div 10), ''0123456789'' ! (ss mod 10)] \<and>
          list_all isDigit (String_nat h) \<and> readDigits 0 (String_nat h) = int h \<and>
          (length (diffToCountdown parse now (Some u)) = 8 \<longleftrightarrow> h < 100)"
      unfolding Let_def s_def [symmetric] hh_def [symmetric] mm_def [symmetric] ss_def [symmetric]
      using String_nat_digits readDigits_String_nat by blast
  qed
  have f: "u \<noteq> [] \<and> parse u = Some t \<and> t - now = 30 * 3600 * 1000 \<longrightarrow>
      diffToCountdown parse now (Some u) = ''30:00:00''"
  proof
    assume h: "u \<noteq> [] \<and> parse u = Some t \<and> t - now = 30 * 3600 * 1000"
    then have "diffToCountdown parse now (Some u) = pad 30 @ '':'' @ pad 0 @ '':'' @ pad 0"
      using countdown_positive [of u parse t now] by simp
    also have "\<dots> = ''30:00:00''" by (simp add: pad_lt100)
    finally show "diffToCountdown parse now (Some u) = ''30:00:00''" .
  qed
  from a b c d e f show ?thesis by blast
qed

theorem diffToCountdown_format_witness:
  "diffToCountdown isoParse 1704067200000 (Some ''garbage'') = ''--:--:--'' \<and>
   diffToCountdown isoParse 1704175200000 (Some ''2024-01-02T06:00:00.000Z'') = ahora \<and>
   diffToCountdown isoParse 1704067200000 (Some ''2024-01-02T06:00:00.000Z'') = ''30:00:00'' \<and>
   length (diffToCountdown isoParse 1704067200000 (Some ''2024-01-02T06:00:00.000Z'')) = 8"
proof -
  have a: "diffToCountdown isoParse 1704067200000 (Some ''garbage'') = ''--:--:--''"
    using diffToCountdown_format [of isoParse 1704067200000 "''garbage''"] parse_garbage by blast
  have b: "diffToCountdown isoParse 1704175200000 (Some ''2024-01-02T06:00:00.000Z'') = ahora"
    using diffToCountdown_format [of isoParse 1704175200000 "''2024-01-02T06:00:00.000Z''" 1704175200000]
      parse_ex1 by simp
  have c: "diffToCountdown isoParse 1704067200000 (Some ''2024-01-02T06:00:00.000Z'') = ''30:00:00''"
    using diffToCountdown_format [of isoParse 1704067200000 "''2024-01-02T06:00:00.000Z''" 1704175200000]
      parse_ex1 by simp
  from a b c show ?thesis by simp
qed

text \<open>
  Claim C7 as stated asks for a fixed width. A wait of 100 hours is displayed with nine
  characters.
\<close>

theorem diffToCountdown_width_counterexample:
  "diffToCountdown isoParse 1704067200000 (Some ''2024-01-05T04:00:00.000Z'') = ''100:00:00'' \<and>
   length (diffToCountdown isoParse 1704067200000 (Some ''2024-01-05T04:00:00.000Z'')) \<noteq> 8"
proof -
  have "diffToCountdown isoParse 1704067200000 (Some ''2024-01-05T04:00:00.000Z'') =
      pad 100 @ '':'' @ pad 0 @ '':'' @ pad 0"
    using countdown_positive [of "''2024-01-05T04:00:00.000Z''" isoParse 1704427200000 1704067200000]
      parse_ex2 by simp
  also have "\<dots> = ''100:00:00''" by code_simp
  finally show ?thesis by simp
qed

text \<open>
  Claim C9. For a fixed parseable target, while now is before the target the countdown
  displays the whole seconds that remain, so the displayed magnitude never grows as now
  advances and is smaller after every full second; and the result is the due-now text
  exactly when target minus now is at most zero.
\<close>

theorem diffToCountdown_monotone:
  assumes "u \<noteq> []" and "parse u = Some t"
  shows "(now1 \<le> now2 \<and> now2 < t \<longrightarrow>
            displayedSeconds (diffToCountdown parse now1 (Some u)) = Some ((t - now1) div 1000) \<and>
            displayedSeconds (diffToCountdown parse now2 (Some u)) = Some ((t - now2) div 1000) \<and>
            (t - now2) div 1000 \<le> (t - now1) div 1000 \<and>
            (now1 + 1000 \<le> now2 \<longrightarrow> (t - now2) div 1000 < (t - now1) div 1000)) \<and>
         (diffToCountdown parse now (Some u) = ahora \<longleftrightarrow> t - now \<le> 0)"
proof -
  have "displayedSeconds (diffToCountdown parse now1 (Some u)) = Some ((t - now1) div 1000) \<and>
        displayedSeconds (diffToCountdown parse now2 (Some u)) = Some ((t - now2) div 1000) \<and>
        (t - now2) div 1000 \<le> (t - now1) div 1000 \<and>
        (now1 + 1000 \<le> now2 \<longrightarrow> (t - now2) div 1000 < (t - now1) div 1000)"
    if "now1 \<le> now2" "now2 < t"
  proof -
    from that have p1: "0 < t - now1" and p2: "0 < t - now2" by simp_all
    from that have "t - now2 \<le> t - now1" by simp
    then have le: "(t - now2) div 1000 \<le> (t - now1) div 1000" by (rule zdiv_mono1) simp
    have lt: "(t - now2) div 1000 < (t - now1) div 1000" if "now1 + 1000 \<le> now2"
    proof -
      from that have "t - now2 \<le> (t - now1) - 1000" by simp
      then have "(t - now2) div 1000 \<le> ((t - now1) - 1000) div 1000" by (rule zdiv_mono1) simp
      also have "((t - now1) - 1000) div 1000 = (t - now1) div 1000 - 1"
        using div_add_self2 [of 1000 "t - now1 - 1000"] by simp
      finally show ?thesis by simp
    qed
    from le lt countdown_readback [of u parse t now1, OF assms p1]
         countdown_readback [of u parse t now2, OF assms p2]
    show ?thesis by simp
  qed
  with countdown_ahora_iff [of u parse t now, OF assms] show ?thesis by blast
qed

theorem diffToCountdown_monotone_witness:
  "displayedSeconds (diffToCountdown isoParse 1704067200000 (Some ''2024-01-02T06:00:00.000Z'')) = Some 108000 \<and>
   displayedSeconds (diffToCountdown isoParse 1704067201000 (Some ''2024-01-02T06:00:00.000Z'')) = Some 107999 \<and>
   diffToCountdown isoParse 1704175200000 (Some ''2024-01-02T06:00:00.000Z'') = ahora"
  using diffToCountdown_monotone [of "''2024-01-02T06:00:00.000Z''" isoParse 1704175200000
      1704067200000 1704067201000 1704175200000] parse_ex1
  by simp

section \<open>Last event and next due time\<close>

subsection \<open>The sort\<close>

lemma mset_insertBy: "mset (insertBy cmp x xs) = add_mset x (mset xs)"
  by (induction xs) simp_all

lemma mset_sortBy: "mset (sortBy cmp xs) = mset xs"
  by (induction xs) (simp_all add: sortBy_def mset_insertBy)

lemma set_sortBy: "set (sortBy cmp xs) = set xs"
  by (metis mset_sortBy set_mset_mset)

lemma insertBy_insort:
  assumes "parse (time x) \<noteq> None" and "list_all (\<lambda>e. parse (time e) \<noteq> None) xs"
  shows "insertBy (byTimeDesc parse) x xs = insort_key (negTime parse) x xs"
  using assms
  by (induction xs) (auto simp: byTimeDesc_def positive_def negTime_def)

lemma sortBy_sort_key:
  assumes "list_all (\<lambda>e. parse (time e) \<noteq> None) xs"
  shows "sortBy (byTimeDesc parse) xs = sort_key (negTime parse) xs"
  using assms
proof (induction xs)
  case Nil
  then show ?case by (simp add: sortBy_def)
next
  case (Cons x xs)
  then have ih: "sortBy (byTimeDesc parse) xs = sort_key (negTime parse) xs" by simp
  have all: "list_all (\<lambda>e. parse (time e) \<noteq> None) (sort_key (negTime parse) xs)"
    using Cons.prems by (simp add: list_all_iff)
  have "sortBy (byTimeDesc parse) (x # xs) = insertBy (byTimeDesc parse) x (sortBy (byTimeDesc parse) xs)"
    by (simp add: sortBy_def)
  also have "\<dots> = insort_key (negTime parse) x (sort_key (negTime parse) xs)"
    unfolding ih using Cons.prems all by (intro insertBy_insort) simp_all
  finally show ?case by simp
qed

subsection \<open>The last event of each category\<close>

lemma nullByType_apply: "nullByType k = (if k \<in> set TYPES then Some None else None)"
  by (simp add: nullByType_def fromEntries_def TYPES_def)

lemma TYPES_not_proto: "k \<in> set TYPES \<Longrightarrow> k \<notin> set ObjectPrototype_keys"
  by (auto simp: TYPES_def ObjectPrototype_keys_def)

lemma fold_assignFirst:
  "fold assignFirst xs m k =
     (if truthyAt m k then m k
      else (case List.find (\<lambda>e. type' e = k) xs of None \<Rightarrow> m k | Some e \<Rightarrow> Some (Some e)))"
proof (induction xs arbitrary: m)
  case Nil
  then show ?case by simp
next
  case (Cons x xs)
  show ?case
  proof (cases "type' x = k")
    case True
    show ?thesis
    proof (cases "truthyAt m k")
      case t: True
      then have "assignFirst x m = m" using True by (simp add: assignFirst_def)
      with t show ?thesis by (simp add: Cons.IH)
    next
      case f: False
      then have a: "assignFirst x m = m(k \<mapsto> Some x)" using True by (simp add: assignFirst_def)
      have t: "truthyAt (m(k \<mapsto> Some x)) k" by (simp add: truthyAt_def)
      have "fold assignFirst (x # xs) m k = fold assignFirst xs (m(k \<mapsto> Some x)) k"
        by (simp add: a)
      also have "\<dots> = Some (Some x)"
        unfolding Cons.IH [of "m(k \<mapsto> Some x)"] using t by simp
      finally show ?thesis using f True by simp
    qed
  next
    case False
    then have "truthyAt (assignFirst x m) k = truthyAt m k" "assignFirst x m k = m k"
      by (simp_all add: assignFirst_def truthyAt_def)
    with False show ?thesis by (simp add: Cons.IH split: option.splits)
  qed
qed

lemma computeLastByType_apply:
  "computeLastByType parse es k =
     (if k \<in> set TYPES then Some (List.find (\<lambda>e. type' e = k) (sortBy (byTimeDesc parse) es))
      else if k \<in> set ObjectPrototype_keys then None
      else map_option Some (List.find (\<lambda>e. type' e = k) (sortBy (byTimeDesc parse) es)))"
  by (auto simp: computeLastByType_def fold_assignFirst truthyAt_def nullByType_apply
      split: option.splits)

lemma find_filter: "List.find P xs = (case filter P xs of [] \<Rightarrow> None | x # _ \<Rightarrow> Some x)"
  by (induction xs) simp_all

lemma find_of_filter: "List.find Q (filter P xs) = List.find (\<lambda>x. P x \<and> Q x) xs"
  by (induction xs) simp_all

lemma hd_sort_key:
  assumes "fs \<noteq> []" and e: "e = hd (sort_key f fs)"
  shows "e \<in> set fs" and "\<forall>x\<in>set fs. f e \<le> f x"
    and "List.find (\<lambda>y. f y = f e) fs = Some e"
proof -
  have ne: "sort_key f fs \<noteq> []" using assms(1) by (metis length_0_conv length_sort)
  then obtain r where s: "sort_key f fs = e # r" unfolding e by (cases "sort_key f fs") simp_all
  have "e \<in> set (sort_key f fs)" using s by simp
  then show "e \<in> set fs" by simp
  have "sorted (map f (sort_key f fs))" by (rule sorted_sort_key)
  then have "\<forall>x\<in>set r. f e \<le> f x" unfolding s by simp
  then have "\<forall>x\<in>set (sort_key f fs). f e \<le> f x" unfolding s by simp
  then show "\<forall>x\<in>set fs. f e \<le> f x" by simp
  have "filter (\<lambda>y. f y = f e) fs = filter (\<lambda>y. f y = f e) (sort_key f fs)"
    by (rule sort_key_stable [symmetric])
  also have "\<dots> = e # filter (\<lambda>y. f y = f e) r" unfolding s by simp
  finally show "List.find (\<lambda>y. f y = f e) fs = Some e"
    by (simp add: find_filter [of "\<lambda>y. f y = f e"])
qed

lemma find_sort_key_None:
  "List.find P (sort_key f xs) = None \<longleftrightarrow> (\<forall>x\<in>set xs. \<not> P x)"
  by (auto simp: find_None_iff)

lemma find_sort_key_Some:
  assumes "List.find P (sort_key f xs) = Some e"
  shows "e \<in> set xs \<and> P e \<and> (\<forall>x\<in>set xs. P x \<longrightarrow> f e \<le> f x) \<and>
         List.find (\<lambda>x. P x \<and> f x = f e) xs = Some e"
proof -
  let ?fs = "filter P xs"
  have fs: "filter P (sort_key f xs) = sort_key f ?fs" by (rule filter_sort)
  from assms have ne: "sort_key f ?fs \<noteq> []" and e: "e = hd (sort_key f ?fs)"
    unfolding find_filter [of P] fs by (auto split: list.splits)
  from ne have ne': "?fs \<noteq> []" by auto
  note h = hd_sort_key [OF ne' e]
  from h(1) have 1: "e \<in> set xs" "P e" by simp_all
  from h(2) have 2: "\<forall>x\<in>set xs. P x \<longrightarrow> f e \<le> f x" by simp
  from h(3) have 3: "List.find (\<lambda>x. P x \<and> f x = f e) xs = Some e"
    by (simp only: find_of_filter)
  from 1 2 3 show ?thesis by blast
qed

lemma mock_parses: "list_all (\<lambda>e. isoParse (time e) \<noteq> None) mock"
  by code_simp

lemma leche_TYPES: "''leche'' \<in> set TYPES"
  by (simp add: TYPES_def)

lemma t1: "isoParse ''2024-01-01T10:00:00.000Z'' = Some 1704103200000" by code_simp
lemma t2: "isoParse ''2024-01-01T11:00:00.000Z'' = Some 1704106800000" by code_simp
lemma t3: "isoParse ''2024-01-01T05:00:00.000Z'' = Some 1704085200000" by code_simp
lemma t4: "isoParse ''2024-01-01T11:30:00.000Z'' = Some 1704108600000" by code_simp

text \<open>
  Claim C4, amended. In a log whose timestamps all parse, \<^verbatim>\<open>computeLastByType\<close> holds under each
  of the four keys the first event of that category in the log sorted stably by time,
  newest first: \<^verbatim>\<open>null\<close> when the category has no event, and otherwise an event of the
  log and of that category whose time is at least the time of every event of the
  category and which, among the events of the category with that same time, comes first
  in the log.
\<close>

theorem computeLastByType_latest:
  assumes "list_all (\<lambda>e. parse (time e) \<noteq> None) es" and "k \<in> set TYPES"
  shows "computeLastByType parse es k =
           Some (List.find (\<lambda>e. type' e = k) (sort_key (\<lambda>e. - the (parse (time e))) es)) \<and>
         (case computeLastByType parse es k of
            Some (Some e) \<Rightarrow>
              e \<in> set es \<and> type' e = k \<and>
              (\<forall>x\<in>set es. type' x = k \<longrightarrow> the (parse (time x)) \<le> the (parse (time e))) \<and>
              List.find (\<lambda>x. type' x = k \<and> parse (time x) = parse (time e)) es = Some e
          | Some None \<Rightarrow> \<forall>x\<in>set es. type' x \<noteq> k
          | None \<Rightarrow> False)"
proof -
  let ?f = "\<lambda>e. - the (parse (time e))"
  let ?P = "\<lambda>e. type' e = k"
  have nt: "negTime parse = ?f" by (rule ext) (simp add: negTime_def)
  have r: "computeLastByType parse es k = Some (List.find ?P (sort_key ?f es))"
    using assms by (simp add: computeLastByType_apply sortBy_sort_key nt)
  show ?thesis
  proof (cases "List.find ?P (sort_key ?f es)")
    case None
    then have "\<forall>x\<in>set es. type' x \<noteq> k" by (simp add: find_sort_key_None)
    with r None show ?thesis by simp
  next
    case (Some e)
    note h = find_sort_key_Some [OF Some]
    have pe: "parse (time e) \<noteq> None" using h assms(1) by (auto simp: list_all_iff)
    have eq: "(type' x = k \<and> parse (time x) = parse (time e)) = (type' x = k \<and> ?f x = ?f e)"
      if "x \<in> set es" for x
    proof -
      from that assms(1) have "parse (time x) \<noteq> None" by (auto simp: list_all_iff)
      with pe show ?thesis by auto
    qed
    have "List.find (\<lambda>x. type' x = k \<and> parse (time x) = parse (time e)) es =
          List.find (\<lambda>x. type' x = k \<and> ?f x = ?f e) es"
      by (rule find_cong [OF refl]) (rule eq)
    then have "List.find (\<lambda>x. type' x = k \<and> parse (time x) = parse (time e)) es = Some e"
      using h by simp
    moreover have "\<forall>x\<in>set es. type' x = k \<longrightarrow> the (parse (time x)) \<le> the (parse (time e))"
      using h by auto
    ultimately show ?thesis using r Some h by simp
  qed
qed

theorem computeLastByType_latest_witness:
  "computeLastByType isoParse mock ''leche'' = Some (Some a2)"
proof -
  from computeLastByType_latest [OF mock_parses leche_TYPES]
  have "computeLastByType isoParse mock ''leche'' =
      Some (List.find (\<lambda>e. type' e = ''leche'') (sort_key (\<lambda>e. - the (isoParse (time e))) mock))"
    by blast
  also have "\<dots> = Some (Some a2)"
    by (simp add: mock_def a1_def a2_def b1_def c1_def t1 t2 t3 t4)
  finally show ?thesis .
qed

text \<open>
  Claim C4 as stated covers every log. A malformed record compares as a tie with every
  other record. In front of a feeding it stays in front and is returned as the last
  feeding, though it has no time at all; between two feedings it keeps the sort, which
  compares neighbours, from moving anything, and the earlier feeding is returned.
\<close>

theorem computeLastByType_malformed_counterexample:
  "computeLastByType isoParse [malformed, a2] ''leche'' = Some (Some malformed) \<and>
   isoParse (time malformed) = None \<and>
   computeLastByType isoParse [a1, malformed, a2] ''leche'' = Some (Some a1) \<and>
   type' a2 = ''leche'' \<and>
   the (isoParse (time a1)) < the (isoParse (time a2))"
proof -
  have "computeLastByType isoParse [malformed, a2] ''leche'' = Some (Some malformed)"
    by code_simp
  moreover have "computeLastByType isoParse [a1, malformed, a2] ''leche'' = Some (Some a1)"
    by code_simp
  moreover have "isoParse (time malformed) = None" by (simp add: malformed_def isoParse_def)
  ultimately show ?thesis by (simp add: a1_def a2_def t1 t2)
qed

subsection \<open>The keys of the result\<close>

lemma find_Some_set: "List.find P xs = Some e \<Longrightarrow> e \<in> set xs \<and> P e"
  by (induction xs) (auto split: if_splits)

lemma find_eq_None: "List.find P xs = None \<longleftrightarrow> (\<forall>x\<in>set xs. \<not> P x)"
  by (auto simp: find_None_iff)

lemma computeLastByType_member:
  assumes "computeLastByType parse es k = Some (Some e)"
  shows "e \<in> set es \<and> type' e = k \<and>
         List.find (\<lambda>x. type' x = k) (sortBy (byTimeDesc parse) es) = Some e"
proof -
  from assms have "List.find (\<lambda>x. type' x = k) (sortBy (byTimeDesc parse) es) = Some e"
    by (auto simp: computeLastByType_apply split: if_splits)
  with find_Some_set [OF this] show ?thesis by (simp add: set_sortBy)
qed

text \<open>
  Claim C10, amended. The returned object always has the four fixed keys; an event under
  a key is an event of the log of that category; a category of the log outside the four
  keys is a further key, never \<^verbatim>\<open>null\<close>, unless it is the name of a property of
  \<^verbatim>\<open>Object.prototype\<close>: for such a name \<^verbatim>\<open>map[e.type]\<close> is already truthy and nothing
  is stored. When the timestamps of the log parse, the event under a key is a most
  recent one of its category.
\<close>

theorem computeLastByType_keys:
  "dom (computeLastByType parse es) = set TYPES \<union> (type' ` set es - set ObjectPrototype_keys) \<and>
   (\<forall>k e. computeLastByType parse es k = Some (Some e) \<longrightarrow> e \<in> set es \<and> type' e = k) \<and>
   (\<forall>k. k \<notin> set TYPES \<longrightarrow> computeLastByType parse es k \<noteq> Some None) \<and>
   (list_all (\<lambda>e. parse (time e) \<noteq> None) es \<longrightarrow>
      (\<forall>k e. computeLastByType parse es k = Some (Some e) \<longrightarrow>
         (\<forall>x\<in>set es. type' x = k \<longrightarrow> the (parse (time x)) \<le> the (parse (time e)))))"
proof -
  let ?S = "sortBy (byTimeDesc parse) es"
  have fn: "List.find (\<lambda>e. type' e = k) ?S = None \<longleftrightarrow> k \<notin> type' ` set es" for k
    by (auto simp: find_eq_None set_sortBy)
  have a: "dom (computeLastByType parse es) = set TYPES \<union> (type' ` set es - set ObjectPrototype_keys)"
  proof (rule set_eqI)
    fix k
    show "k \<in> dom (computeLastByType parse es) \<longleftrightarrow>
          k \<in> set TYPES \<union> (type' ` set es - set ObjectPrototype_keys)"
      using fn [of k] TYPES_not_proto [of k]
      by (cases "List.find (\<lambda>e. type' e = k) ?S") (auto simp: dom_def computeLastByType_apply)
  qed
  have b: "\<forall>k e. computeLastByType parse es k = Some (Some e) \<longrightarrow> e \<in> set es \<and> type' e = k"
    using computeLastByType_member by blast
  have c: "\<forall>k. k \<notin> set TYPES \<longrightarrow> computeLastByType parse es k \<noteq> Some None"
    by (auto simp: computeLastByType_apply)
  have d: "\<forall>x\<in>set es. type' x = k \<longrightarrow> the (parse (time x)) \<le> the (parse (time e))"
    if p: "list_all (\<lambda>e. parse (time e) \<noteq> None) es"
      and r: "computeLastByType parse es k = Some (Some e)" for k e
  proof -
    from computeLastByType_member [OF r]
    have "List.find (\<lambda>x. type' x = k) (sort_key (negTime parse) es) = Some e"
      by (simp add: sortBy_sort_key [OF p])
    from find_sort_key_Some [OF this] show ?thesis by (auto simp: negTime_def)
  qed
  from a b c d show ?thesis by blast
qed

theorem computeLastByType_keys_witness:
  "''siesta'' \<in> dom (computeLastByType isoParse withUnknown) \<and>
   ''toString'' \<notin> dom (computeLastByType isoParse withUnknown) \<and>
   ''vitamina'' \<in> dom (computeLastByType isoParse withUnknown) \<and>
   list_all (\<lambda>e. isoParse (time e) \<noteq> None) withUnknown \<and>
   computeLastByType isoParse withUnknown ''siesta'' = Some (Some x3) \<and>
   the (isoParse (time x2)) \<le> the (isoParse (time x3))"
proof -
  note th = computeLastByType_keys [of isoParse withUnknown]
  have d: "dom (computeLastByType isoParse withUnknown) =
      set TYPES \<union> (type' ` set withUnknown - set ObjectPrototype_keys)"
    using th by blast
  have p: "list_all (\<lambda>e. isoParse (time e) \<noteq> None) withUnknown" by code_simp
  have v: "computeLastByType isoParse withUnknown ''siesta'' = Some (Some x3)"
    by code_simp
  have m: "x2 \<in> set withUnknown" "type' x2 = ''siesta''"
    by (simp_all add: withUnknown_def x2_def)
  from th p v m have "the (isoParse (time x2)) \<le> the (isoParse (time x3))"
    by blast
  moreover have "''siesta'' \<in> dom (computeLastByType isoParse withUnknown)"
    unfolding d by (simp add: withUnknown_def x1_def x2_def x3_def ObjectPrototype_keys_def)
  moreover have "''toString'' \<notin> dom (computeLastByType isoParse withUnknown)"
    unfolding d by (simp add: withUnknown_def x1_def x2_def x3_def ObjectPrototype_keys_def TYPES_def)
  moreover have "''vitamina'' \<in> dom (computeLastByType isoParse withUnknown)"
    unfolding d by (simp add: TYPES_def)
  ultimately show ?thesis using p v by blast
qed

text \<open>
  Claim C10 as stated lets every unknown category become a key. The category
  \<^verbatim>\<open>toString\<close> does not.
\<close>

theorem computeLastByType_unknown_counterexample:
  "''toString'' \<in> type' ` set withUnknown \<and> ''toString'' \<notin> set TYPES \<and>
   computeLastByType isoParse withUnknown ''toString'' = None"
proof -
  have "computeLastByType isoParse withUnknown ''toString'' = None" by code_simp
  then show ?thesis by (simp add: withUnknown_def x1_def TYPES_def)
qed

subsection \<open>The next due time\<close>

















subsection \<open>Malformed timestamps\<close>









section \<open>CSV codec and import\<close>

lemma escape_esc: "escape s = dq # esc s @ [dq]"
  by (simp add: escape_def esc_def)

lemma esc_simps: "esc [] = []" "esc (c # s) = (if c = dq then dq # dq # esc s else c # esc s)"
  by (simp_all add: esc_def)

lemma scan_Cons:
  "scan inQ cur (ch # rest) =
     (if ch = dq then
        (if inQ \<and> rest \<noteq> [] \<and> hd rest = dq then scan inQ (cur @ [dq]) (tl rest)
         else scan (\<not> inQ) cur rest)
      else if ch = comma \<and> \<not> inQ then cur # scan inQ [] rest
      else scan inQ (cur @ [ch]) rest)"
  by (cases rest) simp_all

lemma dq_not_comma: "dq \<noteq> comma"
  by (simp add: dq_def comma_def)

lemma scan_quoted_body:
  assumes "rest = [] \<or> hd rest \<noteq> dq"
  shows "scan True cur (esc s @ dq # rest) = scan False (cur @ s) rest"
proof (induction s arbitrary: cur)
  case Nil
  from assms show ?case by (auto simp: esc_simps scan_Cons)
next
  case (Cons c s)
  show ?case
  proof (cases "c = dq")
    case True
    then show ?thesis using Cons.IH [of "cur @ [dq]"] by (simp add: esc_simps scan_Cons)
  next
    case False
    then show ?thesis using Cons.IH [of "cur @ [c]"] by (simp add: esc_simps scan_Cons)
  qed
qed

lemma scan_escape:
  assumes "rest = [] \<or> hd rest \<noteq> dq"
  shows "scan False cur (escape s @ rest) = scan False (cur @ s) rest"
  using scan_quoted_body [OF assms, of cur s] by (simp add: escape_esc scan_Cons)

lemma scan_comma: "scan False cur (comma # rest) = cur # scan False [] rest"
  by (simp add: scan_Cons dq_not_comma [symmetric])

lemma splitRow_escaped:
  "fs \<noteq> [] \<Longrightarrow> scan False [] (join [comma] (map escape fs)) = fs"
proof (induction fs rule: induct_list012)
  case 1
  then show ?case by simp
next
  case (2 x)
  then show ?case using scan_escape [of "[]" "[]" x] by simp
next
  case (3 x y ys)
  have "scan False [] (join [comma] (map escape (x # y # ys))) =
        scan False [] (escape x @ comma # join [comma] (map escape (y # ys)))" by simp
  also have "\<dots> = scan False x (comma # join [comma] (map escape (y # ys)))"
    using scan_escape [of "comma # join [comma] (map escape (y # ys))" "[]" x]
    by (simp add: dq_not_comma [symmetric])
  also have "\<dots> = x # scan False [] (join [comma] (map escape (y # ys)))" by (rule scan_comma)
  also have "\<dots> = x # y # ys" using 3 by simp
  finally show ?case .
qed

lemma splitComma_nonempty: "splitComma s \<noteq> []"
  by (induction s) (auto split: list.splits)

lemma scan_unquoted:
  "dq \<notin> set line \<Longrightarrow> scan False cur line = (case splitComma line of l # ls \<Rightarrow> (cur @ l) # ls | [] \<Rightarrow> [])"
proof (induction line arbitrary: cur)
  case Nil
  then show ?case by simp
next
  case (Cons c line)
  then have c: "c \<noteq> dq" and l: "dq \<notin> set line" by auto
  show ?case
  proof (cases "c = comma")
    case True
    with c show ?thesis using Cons.IH [OF l, of "[]"] splitComma_nonempty [of line]
      by (simp add: scan_Cons split: list.splits)
  next
    case False
    with c show ?thesis using Cons.IH [OF l, of "cur @ [c]"] splitComma_nonempty [of line]
      by (simp add: scan_Cons split: list.splits)
  qed
qed

lemma splitRow_unquoted: "dq \<notin> set line \<Longrightarrow> splitRow line = splitComma line"
  using splitComma_nonempty [of line]
  by (cases "splitComma line") (simp_all add: splitRow_def scan_unquoted)

lemma splitLines_Cons:
  "splitLines (c # cs) =
     (if c = LF then [] # splitLines cs
      else if c = CR \<and> cs \<noteq> [] \<and> hd cs = LF then [] # splitLines (tl cs)
      else (case splitLines cs of l # ls \<Rightarrow> (c # l) # ls | [] \<Rightarrow> [[c]]))"
  by (cases cs) simp_all

lemma splitLines_line_LF:
  "LF \<notin> set l \<Longrightarrow> l \<noteq> [] \<longrightarrow> last l \<noteq> CR \<Longrightarrow> splitLines (l @ LF # rest) = l # splitLines rest"
proof (induction l)
  case Nil
  then show ?case by (simp add: splitLines_Cons)
next
  case (Cons c l)
  then have c: "c \<noteq> LF" and l: "LF \<notin> set l" and e: "l \<noteq> [] \<longrightarrow> last l \<noteq> CR" by auto
  have n: "\<not> (c = CR \<and> hd (l @ LF # rest) = LF)"
  proof (cases l)
    case Nil
    with Cons.prems show ?thesis by simp
  next
    case (Cons d l')
    with l show ?thesis by auto
  qed
  have "splitLines ((c # l) @ LF # rest) =
      (case splitLines (l @ LF # rest) of x # xs \<Rightarrow> (c # x) # xs | [] \<Rightarrow> [[c]])"
    using c n by (auto simp: splitLines_Cons [of c])
  then show ?case using Cons.IH [OF l e] by simp
qed

lemma splitLines_line_CRLF:
  "LF \<notin> set l \<Longrightarrow> splitLines (l @ CR # LF # rest) = l # splitLines rest"
proof (induction l)
  case Nil
  then show ?case by (simp add: splitLines_Cons LF_def CR_def)
next
  case (Cons c l)
  then have c: "c \<noteq> LF" and l: "LF \<notin> set l" by auto
  have n: "\<not> (c = CR \<and> hd (l @ CR # LF # rest) = LF)"
    using l by (cases l) (auto simp: LF_def CR_def)
  have "splitLines ((c # l) @ CR # LF # rest) =
      (case splitLines (l @ CR # LF # rest) of x # xs \<Rightarrow> (c # x) # xs | [] \<Rightarrow> [[c]])"
    using c n by (auto simp: splitLines_Cons [of c])
  then show ?case using Cons.IH [OF l] by simp
qed

lemma splitLines_line_end: "LF \<notin> set l \<Longrightarrow> splitLines l = [l]"
proof (induction l)
  case Nil
  then show ?case by simp
next
  case (Cons c l)
  then have c: "c \<noteq> LF" and l: "LF \<notin> set l" by auto
  have n: "\<not> (c = CR \<and> l \<noteq> [] \<and> hd l = LF)" using l by (cases l) auto
  show ?case using c n Cons.IH [OF l] by (simp add: splitLines_Cons [of c])
qed

lemma splitLines_join_LF:
  "ls \<noteq> [] \<Longrightarrow> \<forall>l\<in>set ls. LF \<notin> set l \<and> (l \<noteq> [] \<longrightarrow> last l \<noteq> CR) \<Longrightarrow>
     splitLines (join [LF] ls) = ls"
proof (induction ls rule: induct_list012)
  case 1
  then show ?case by simp
next
  case (2 x)
  then show ?case by (simp add: splitLines_line_end)
next
  case (3 x y zs)
  then have "splitLines (join [LF] (y # zs)) = y # zs" by simp
  moreover have "splitLines (x @ LF # join [LF] (y # zs)) = x # splitLines (join [LF] (y # zs))"
    using 3(4) by (intro splitLines_line_LF) simp_all
  ultimately show ?case by simp
qed

lemma splitLines_join_CRLF:
  "ls \<noteq> [] \<Longrightarrow> \<forall>l\<in>set ls. LF \<notin> set l \<Longrightarrow> splitLines (join [CR, LF] ls) = ls"
proof (induction ls rule: induct_list012)
  case 1
  then show ?case by simp
next
  case (2 x)
  then show ?case by (simp add: splitLines_line_end)
next
  case (3 x y zs)
  then have "splitLines (join [CR, LF] (y # zs)) = y # zs" by simp
  moreover have "splitLines (x @ CR # LF # join [CR, LF] (y # zs)) = x # splitLines (join [CR, LF] (y # zs))"
    using 3(4) by (intro splitLines_line_CRLF) simp_all
  ultimately show ?case by simp
qed

lemma splitLines_no_LF: "\<forall>l\<in>set (splitLines s). LF \<notin> set l"
proof (induction s rule: splitLines.induct)
  case 1
  then show ?case by simp
next
  case (2 c)
  then show ?case by simp
next
  case (3 c d cs)
  then show ?case by (auto split: list.splits)
qed

lemma splitComma_name:
  "comma \<notin> set n \<Longrightarrow> splitComma (n @ comma # rest) = n # splitComma rest"
  by (induction n) auto

lemma splitComma_last: "comma \<notin> set n \<Longrightarrow> splitComma n = [n]"
  by (induction n) auto

lemma splitComma_join:
  "hs \<noteq> [] \<Longrightarrow> \<forall>n\<in>set hs. comma \<notin> set n \<Longrightarrow> splitComma (join [comma] hs) = hs"
proof (induction hs rule: induct_list012)
  case 1
  then show ?case by simp
next
  case (2 x)
  then show ?case by (simp add: splitComma_last)
next
  case (3 x y zs)
  then show ?case by (simp add: splitComma_name)
qed

lemma set_join: "set (join sep xs) \<subseteq> set sep \<union> \<Union> (set ` set xs)"
  by (induction sep xs rule: join.induct) auto

lemma join_ends: "xs \<noteq> [] \<Longrightarrow> \<exists>p. join sep xs = p @ last xs"
proof (induction sep xs rule: join.induct)
  case (1 sep)
  then show ?case by simp
next
  case (2 sep x)
  then show ?case by simp
next
  case (3 sep x y ys)
  then obtain p where "join sep (y # ys) = p @ last (y # ys)" by auto
  then have "join sep (x # y # ys) = (x @ sep @ p) @ last (x # y # ys)" by simp
  then show ?case by blast
qed

lemma row_line:
  assumes "vs \<noteq> []"
  shows "join [comma] (map escape vs) \<noteq> []" and "last (join [comma] (map escape vs)) = dq"
proof -
  from assms have "map escape vs \<noteq> []" by simp
  from join_ends [OF this, of "[comma]"] obtain p where
    "join [comma] (map escape vs) = p @ last (map escape vs)" by blast
  also have "last (map escape vs) = escape (last vs)" using assms by (simp add: last_map)
  also have "\<dots> = (dq # esc (last vs)) @ [dq]" by (simp add: escape_esc)
  finally have e: "join [comma] (map escape vs) = (p @ dq # esc (last vs)) @ [dq]" by simp
  show "join [comma] (map escape vs) \<noteq> []" unfolding e by simp
  show "last (join [comma] (map escape vs)) = dq" unfolding e by (rule last_snoc)
qed

lemma set_esc: "set (esc s) \<subseteq> insert dq (set s)"
  by (induction s) (auto simp: esc_simps)

lemma set_escape: "set (escape s) \<subseteq> insert dq (set s)"
  using set_esc [of s] by (auto simp: escape_esc)

lemma row_line_no_LF:
  assumes "\<forall>v\<in>set vs. LF \<notin> set v"
  shows "LF \<notin> set (join [comma] (map escape vs))"
proof
  assume "LF \<in> set (join [comma] (map escape vs))"
  with set_join [of "[comma]" "map escape vs"]
  have "LF = comma \<or> (\<exists>v\<in>set vs. LF \<in> set (escape v))" by auto
  then obtain v where "v \<in> set vs" "LF \<in> set (escape v)" by (auto simp: LF_def comma_def)
  with set_escape [of v] assms show False by (auto simp: LF_def dq_def)
qed

lemma fold_upd_map_of:
  "fold (\<lambda>p m. m(fst p \<mapsto> snd p)) ps m = m ++ map_of (rev ps)"
proof (induction ps arbitrary: m)
  case Nil
  then show ?case by simp
next
  case (Cons p ps)
  have 1: "fold (\<lambda>p m. m(fst p \<mapsto> snd p)) (p # ps) m =
           fold (\<lambda>p m. m(fst p \<mapsto> snd p)) ps (m(fst p \<mapsto> snd p))"
    by (simp only: fold.simps o_apply)
  have 2: "fold (\<lambda>p m. m(fst p \<mapsto> snd p)) ps (m(fst p \<mapsto> snd p)) =
           m(fst p \<mapsto> snd p) ++ map_of (rev ps)"
    by (rule Cons.IH)
  have 3: "m(fst p \<mapsto> snd p) ++ map_of (rev ps) = m ++ map_of (rev (p # ps))"
    by (cases p) (simp add: fun_eq_iff map_add_def split: option.splits)
  from 1 2 3 show ?case by (simp only:)
qed

lemma fromEntries_map_of: "fromEntries ps = map_of (rev ps)"
  unfolding fromEntries_def fold_upd_map_of by simp

lemma map_of_rev_distinct:
  "distinct (map fst ps) \<Longrightarrow> map_of (rev ps) = map_of ps"
proof (induction ps)
  case Nil
  then show ?case by simp
next
  case (Cons p ps)
  obtain k i where p: "p = (k, i)" by (cases p)
  from Cons.prems have d: "distinct (map fst ps)" and n: "k \<notin> fst ` set ps" by (auto simp: p)
  from n have "map_of ps k = None" by (simp add: map_of_eq_None_iff)
  then show ?case
    by (auto simp: p Cons.IH [OF d] fun_eq_iff map_add_def split: option.splits)
qed

lemma fst_enumerate_names:
  "map fst (map (\<lambda>(i, k). (f k, i)) (List.enumerate n hs)) = map f hs"
  by (induction hs arbitrary: n) simp_all

lemma headerIndex_names:
  assumes "ns \<noteq> []" and "distinct (map trim ns)" and "\<forall>n\<in>set ns. comma \<notin> set n"
  shows "headerIndex (join [comma] ns) = map_of (map (\<lambda>(i, k). (trim k, i)) (List.enumerate 0 ns))"
proof -
  have s: "splitComma (join [comma] ns) = ns" using assms by (simp add: splitComma_join)
  have "headerIndex (join [comma] ns) =
        map_of (rev (map (\<lambda>(i, k). (trim k, i)) (List.enumerate 0 ns)))"
    by (simp add: headerIndex_def s fromEntries_map_of rev_map)
  also have "\<dots> = map_of (map (\<lambda>(i, k). (trim k, i)) (List.enumerate 0 ns))"
    using assms(2) by (intro map_of_rev_distinct) (simp only: fst_enumerate_names)
  finally show ?thesis .
qed

lemma index_ge:
  "map_of (map (\<lambda>(i, k). (f k, i)) (List.enumerate n hs)) k = Some i \<Longrightarrow> n \<le> i"
proof (induction hs arbitrary: n)
  case Nil
  then show ?case by simp
next
  case (Cons h hs)
  show ?case
  proof (cases "k = f h")
    case True
    with Cons.prems show ?thesis by simp
  next
    case False
    with Cons.prems have "map_of (map (\<lambda>(i, k). (f k, i)) (List.enumerate (Suc n) hs)) k = Some i"
      by simp
    from Cons.IH [OF this] show ?thesis by simp
  qed
qed

lemma get_by_name:
  "pick n vs (map_of (map (\<lambda>(i, k). (f k, i)) (List.enumerate n hs)) k) =
   getOr (map_of (zip (map f hs) vs)) k"
proof (induction hs arbitrary: n vs)
  case Nil
  then show ?case by (simp add: getOr_def pick_def)
next
  case (Cons h hs)
  let ?m = "map_of (map (\<lambda>(i, k). (f k, i)) (List.enumerate (Suc n) hs)) k"
  show ?case
  proof (cases "k = f h")
    case True
    then show ?thesis by (cases vs) (simp_all add: getOr_def pick_def)
  next
    case False
    then have l: "map_of (map (\<lambda>(i, k). (f k, i)) (List.enumerate n (h # hs))) k = ?m"
      by simp
    show ?thesis
    proof (cases vs)
      case Nil
      then show ?thesis unfolding l by (simp add: getOr_def pick_def split: option.splits)
    next
      case (Cons v vs')
      have "pick n vs ?m = pick (Suc n) vs' ?m"
      proof (cases ?m)
        case None
        then show ?thesis by (simp add: pick_def)
      next
        case (Some i)
        from index_ge [OF Some] have "i - n = Suc (i - Suc n)" by simp
        with Some Cons show ?thesis by (simp add: pick_def)
      qed
      also have "\<dots> = getOr (map_of (zip (map f hs) vs')) k" by (rule Cons.IH)
      also have "\<dots> = getOr (map_of (zip (map f (h # hs)) vs)) k"
        using False Cons by (simp add: getOr_def)
      finally show ?thesis unfolding l .
    qed
  qed
qed

lemma rowEntry_by_name:
  assumes "vs \<noteq> []"
  shows "rowEntry (map_of (map (\<lambda>(i, k). (trim k, i)) (List.enumerate 0 ns)))
           (join [comma] (map escape vs)) =
         recordOf (map_of (zip (map trim ns) vs))"
proof -
  have c: "splitRow (join [comma] (map escape vs)) = vs"
    using assms by (simp add: splitRow_def splitRow_escaped)
  have g: "get (map_of (map (\<lambda>(i, k). (trim k, i)) (List.enumerate 0 ns))) vs k =
           getOr (map_of (zip (map trim ns) vs)) k" for k
    using get_by_name [where f = trim and hs = ns and n = 0 and k = k and vs = vs]
    by (auto simp: get_def pick_def split: option.splits)
  show ?thesis by (simp add: rowEntry_def c g recordOf_def)
qed

lemma fromCSV_table:
  assumes ns: "distinct (map trim ns)" "join [comma] ns \<noteq> []"
      "\<forall>n\<in>set ns. comma \<notin> set n \<and> LF \<notin> set n \<and> CR \<notin> set n"
    and vss: "\<forall>vs\<in>set vss. vs \<noteq> [] \<and> (\<forall>v\<in>set vs. LF \<notin> set v)"
  shows "fromCSV (join [LF] (join [comma] ns # map (\<lambda>vs. join [comma] (map escape vs)) vss)) =
         Inr (map (\<lambda>vs. recordOf (map_of (zip (map trim ns) vs))) vss)"
proof -
  let ?H = "join [comma] ns"
  let ?row = "\<lambda>vs. join [comma] (map escape vs)"
  from ns(2) have ne: "ns \<noteq> []" by auto
  have H: "LF \<notin> set ?H" "CR \<notin> set ?H"
    using set_join [of "[comma]" ns] ns(3) by (auto simp: LF_def CR_def comma_def)
  then have Hl: "?H \<noteq> [] \<longrightarrow> last ?H \<noteq> CR" by (metis last_in_set)
  have rows: "LF \<notin> set (?row vs) \<and> (?row vs \<noteq> [] \<longrightarrow> last (?row vs) \<noteq> CR) \<and> ?row vs \<noteq> []"
    if "vs \<in> set vss" for vs
    using that vss row_line [of vs] row_line_no_LF [of vs] by (auto simp: dq_def CR_def)
  have "splitLines (join [LF] (?H # map ?row vss)) = ?H # map ?row vss"
    using H(1) Hl rows by (intro splitLines_join_LF) auto
  moreover have "filter (\<lambda>l. l \<noteq> []) (?H # map ?row vss) = ?H # map ?row vss"
    using ns(2) rows by (auto simp: filter_id_conv)
  ultimately have "fromCSV (join [LF] (?H # map ?row vss)) =
      Inr (map (rowEntry (headerIndex ?H)) (map ?row vss))"
    by (simp add: fromCSV_def)
  also have "headerIndex ?H = map_of (map (\<lambda>(i, k). (trim k, i)) (List.enumerate 0 ns))"
    using ne ns by (intro headerIndex_names) auto
  also have "map (rowEntry (map_of (map (\<lambda>(i, k). (trim k, i)) (List.enumerate 0 ns)))) (map ?row vss) =
      map (\<lambda>vs. recordOf (map_of (zip (map trim ns) vs))) vss"
    using vss by (simp add: rowEntry_by_name)
  finally show ?thesis .
qed

lemma header_ok:
  "distinct (map trim header)" "join [comma] header \<noteq> []"
  "\<forall>n\<in>set header. comma \<notin> set n \<and> LF \<notin> set n \<and> CR \<notin> set n"
  "map trim header = header"
  by code_simp+

lemma recordOf_rowFields: "recordOf (map_of (zip header (rowFields r))) = collapse r"
  by (cases r) (simp add: header_def rowFields_def recordOf_def getOr_def collapse_def)

lemma fromCSV_toCSV:
  assumes "\<forall>r\<in>set rs. \<forall>v\<in>set (rowFields r). LF \<notin> set v"
  shows "fromCSV (toCSV rs) = Inr (map collapse rs)"
proof -
  have t: "toCSV rs =
      join [LF] (join [comma] header # map (\<lambda>vs. join [comma] (map escape vs)) (map rowFields rs))"
    by (simp add: toCSV_def comp_def)
  have v: "\<forall>vs\<in>set (map rowFields rs). vs \<noteq> [] \<and> (\<forall>v\<in>set vs. LF \<notin> set v)"
    using assms by (auto simp: rowFields_def)
  show ?thesis unfolding t fromCSV_table [OF header_ok(1-3) v]
    by (simp add: comp_def header_ok(4) recordOf_rowFields)
qed

lemma TYPES_no_LF: "k \<in> set TYPES \<Longrightarrow> LF \<notin> set k"
  by (auto simp: TYPES_def LF_def)

text \<open>
  Claim C1, amended. For every list of events whose category is one of the four fixed
  values and whose identifier, timestamp, amount and note contain no line feed, decoding
  the text that \<^verbatim>\<open>toCSV\<close> writes gives the same events, an amount or note that is the
  empty string becoming absent.
\<close>

theorem fromCSV_toCSV_roundtrip:
  assumes "\<forall>r\<in>set rs. type' r \<in> set TYPES \<and> LF \<notin> set (id' r) \<and> LF \<notin> set (time r) \<and>
             LF \<notin> set (orEmpty (amount r)) \<and> LF \<notin> set (orEmpty (notes' r))"
  shows "fromCSV (toCSV rs) = Inr (map collapse rs)"
  using assms by (intro fromCSV_toCSV) (auto simp: rowFields_def dest: TYPES_no_LF)

theorem fromCSV_toCSV_roundtrip_witness:
  "fromCSV (toCSV [a1, c1]) = Inr [a1, c1] \<and>
   fromCSV (toCSV [a1\<lparr> notes' := Some [] \<rparr>]) = Inr [a1]"
proof -
  have 1: "\<forall>r\<in>set [a1, c1]. type' r \<in> set TYPES \<and> LF \<notin> set (id' r) \<and> LF \<notin> set (time r) \<and>
             LF \<notin> set (orEmpty (amount r)) \<and> LF \<notin> set (orEmpty (notes' r))"
    by (simp add: a1_def c1_def TYPES_def orEmpty_def LF_def)
  have 2: "\<forall>r\<in>set [a1\<lparr> notes' := Some [] \<rparr>]. type' r \<in> set TYPES \<and> LF \<notin> set (id' r) \<and> LF \<notin> set (time r) \<and>
             LF \<notin> set (orEmpty (amount r)) \<and> LF \<notin> set (orEmpty (notes' r))"
    by (simp add: a1_def TYPES_def orEmpty_def LF_def)
  have c: "map collapse [a1, c1] = [a1, c1]" "map collapse [a1\<lparr> notes' := Some [] \<rparr>] = [a1]"
    by (simp_all add: collapse_def a1_def c1_def orEmpty_def orUndefined_def)
  from fromCSV_toCSV_roundtrip [OF 1] fromCSV_toCSV_roundtrip [OF 2] c show ?thesis by simp
qed

text \<open>
  Claim C1 as stated covers every event of a fixed category. A note of two lines is
  written inside quotes, but \<^verbatim>\<open>fromCSV\<close> splits the text into lines first and reads two
  events back.
\<close>

theorem fromCSV_toCSV_newline_counterexample:
  "type' twoLineNote \<in> set TYPES \<and>
   fromCSV (toCSV [twoLineNote]) =
     Inr [\<lparr> id' = ''n1'', type' = ''panal'', time = ''2024-01-01T11:30:00.000Z'',
             amount = None, notes' = Some ''a'' \<rparr>,
          \<lparr> id' = ''b'', type' = [], time = [], amount = None, notes' = None \<rparr>] \<and>
   fromCSV (toCSV [twoLineNote]) \<noteq> Inr [twoLineNote]"
  by code_simp

text \<open>
  Claim C6, amended. The scanner of a data row: outside quotes a comma ends a field;
  inside quotes a comma is content, a doubled quote is one quote character and any other
  quote leaves the quoted mode; outside quotes a quote enters it; every other character
  is content, a CR included. So a row without quotes splits at its commas, a row of
  quoted fields as \<^verbatim>\<open>toCSV\<close> writes them gives the fields back whatever they contain, and
  \<^verbatim>\<open>"He said ""hi"""\<close> is read as \<^verbatim>\<open>He said "hi"\<close>. A line feed never reaches the
  scanner: the text is cut at every LF before the rows are scanned, also inside quotes.
\<close>

theorem splitRow_quote_aware:
  "scan False cur (comma # rest) = cur # scan False [] rest \<and>
   scan True cur (comma # rest) = scan True (cur @ [comma]) rest \<and>
   scan True cur (dq # dq # rest) = scan True (cur @ [dq]) rest \<and>
   (rest = [] \<or> hd rest \<noteq> dq \<longrightarrow> scan True cur (dq # rest) = scan False cur rest) \<and>
   scan False cur (dq # rest) = scan True cur rest \<and>
   (ch \<noteq> dq \<and> ch \<noteq> comma \<longrightarrow> scan inQ cur (ch # rest) = scan inQ (cur @ [ch]) rest) \<and>
   (dq \<notin> set line \<longrightarrow> splitRow line = splitComma line) \<and>
   (fs \<noteq> [] \<longrightarrow> splitRow (join [comma] (map escape fs)) = fs) \<and>
   splitRow heSaid = [''He said '' @ [dq] @ ''hi'' @ [dq]] \<and>
   (\<forall>l\<in>set (splitLines text). LF \<notin> set l)"
proof -
  have 1: "scan False cur (comma # rest) = cur # scan False [] rest" by (rule scan_comma)
  have 2: "scan True cur (comma # rest) = scan True (cur @ [comma]) rest"
    by (simp add: scan_Cons dq_not_comma [symmetric])
  have 3: "scan True cur (dq # dq # rest) = scan True (cur @ [dq]) rest" by simp
  have 4: "rest = [] \<or> hd rest \<noteq> dq \<longrightarrow> scan True cur (dq # rest) = scan False cur rest"
    by (auto simp: scan_Cons)
  have 5: "scan False cur (dq # rest) = scan True cur rest" by (simp add: scan_Cons)
  have 6: "ch \<noteq> dq \<and> ch \<noteq> comma \<longrightarrow> scan inQ cur (ch # rest) = scan inQ (cur @ [ch]) rest"
    by (simp add: scan_Cons)
  have 7: "dq \<notin> set line \<longrightarrow> splitRow line = splitComma line"
    by (simp add: splitRow_unquoted)
  have 8: "fs \<noteq> [] \<longrightarrow> splitRow (join [comma] (map escape fs)) = fs"
    by (simp add: splitRow_def splitRow_escaped)
  have 9: "splitRow heSaid = [''He said '' @ [dq] @ ''hi'' @ [dq]]" by code_simp
  have 10: "\<forall>l\<in>set (splitLines text). LF \<notin> set l" by (rule splitLines_no_LF)
  from 1 2 3 4 5 6 7 8 9 10 show ?thesis by blast
qed

theorem splitRow_quote_aware_witness:
  "splitRow (''a,b,,c'') = [''a'', ''b'', [], ''c''] \<and>
   splitRow (join [comma] (map escape [''x,y'', [dq], [CR], []])) = [''x,y'', [dq], [CR], []] \<and>
   scan True [] (dq # ''x'') = scan False [] ''x'' \<and>
   scan False ''ab'' (''c'' @ [comma]) = scan False ''abc'' [comma] \<and>
   LF \<notin> set (splitLines quotedNewline ! 1)"
proof -
  note th = splitRow_quote_aware
  have a: "dq \<notin> set ''a,b,,c''" by (simp add: dq_def)
  have "splitRow (''a,b,,c'') = splitComma ''a,b,,c''"
    using th [of _ _ _ _ "''a,b,,c''"] a by blast
  also have "\<dots> = [''a'', ''b'', [], ''c'']" by code_simp
  finally have 1: "splitRow (''a,b,,c'') = [''a'', ''b'', [], ''c'']" .
  have 2: "splitRow (join [comma] (map escape [''x,y'', [dq], [CR], []])) = [''x,y'', [dq], [CR], []]"
    using th [of _ _ _ _ _ "[''x,y'', [dq], [CR], []]"] by blast
  have h: "''x'' = [] \<or> hd ''x'' \<noteq> dq" by (simp add: dq_def)
  have 3: "scan True [] (dq # ''x'') = scan False [] ''x''"
    using th [of "[]" "''x''"] h by blast
  have c: "CHR ''c'' \<noteq> dq \<and> CHR ''c'' \<noteq> comma" by (simp add: dq_def comma_def)
  have 4: "scan False ''ab'' (''c'' @ [comma]) = scan False ''abc'' [comma]"
    using th [of "''ab''" "[comma]" "CHR ''c''" False] c by simp
  have m: "splitLines quotedNewline ! 1 \<in> set (splitLines quotedNewline)" by code_simp
  have 5: "LF \<notin> set (splitLines quotedNewline ! 1)"
    using th [of _ _ _ _ _ _ quotedNewline] m by blast
  from 1 2 3 4 5 show ?thesis by blast
qed

text \<open>
  Claim C6 as stated keeps a newline inside quotes as field content. The quoted field
  that holds \<^verbatim>\<open>line1\<close>, a line feed and \<^verbatim>\<open>line2\<close> is read as the end of one row and
  the start of another.
\<close>

theorem fromCSV_quoted_newline_counterexample:
  "fromCSV quotedNewline =
     Inr [\<lparr> id' = ''q1'', type' = [], time = [], amount = None, notes' = Some ''line1'' \<rparr>,
          \<lparr> id' = ''line2'', type' = [], time = [], amount = None, notes' = None \<rparr>]"
  by code_simp

lemma fromCSV_blank_lines:
  assumes "\<forall>l\<in>set ls. LF \<notin> set l \<and> (l \<noteq> [] \<longrightarrow> last l \<noteq> CR)"
  shows "fromCSV (join [LF] ls) = fromCSV (join [LF] (filter (\<lambda>l. l \<noteq> []) ls))"
proof -
  let ?fs = "filter (\<lambda>l. l \<noteq> []) ls"
  have l: "filter (\<lambda>l. l \<noteq> []) (splitLines (join [LF] ls)) = ?fs"
  proof (cases "ls = []")
    case True
    then show ?thesis by simp
  next
    case False
    then show ?thesis using assms by (simp add: splitLines_join_LF)
  qed
  have r: "filter (\<lambda>l. l \<noteq> []) (splitLines (join [LF] ?fs)) = ?fs"
  proof (cases "?fs = []")
    case True
    then show ?thesis by simp
  next
    case False
    then have "splitLines (join [LF] ?fs) = ?fs" using assms by (intro splitLines_join_LF) auto
    then show ?thesis by simp
  qed
  show ?thesis unfolding fromCSV_def l r ..
qed

lemma fromCSV_CRLF:
  assumes "\<forall>l\<in>set ls. LF \<notin> set l \<and> (l \<noteq> [] \<longrightarrow> last l \<noteq> CR)"
  shows "fromCSV (join [CR, LF] ls) = fromCSV (join [LF] ls)"
proof (cases "ls = []")
  case True
  then show ?thesis by simp
next
  case False
  then have "splitLines (join [CR, LF] ls) = ls" "splitLines (join [LF] ls) = ls"
    using assms by (simp_all add: splitLines_join_LF splitLines_join_CRLF)
  then show ?thesis by (simp add: fromCSV_def)
qed

text \<open>
  Claim C8. Take column names without comma or line break, distinct once the white space
  around them is trimmed, in any order and number, and rows of quoted values without
  line feed. \<^verbatim>\<open>fromCSV\<close> reads each row as the event whose five fields are the values
  standing under the names \<^verbatim>\<open>id\<close>, \<^verbatim>\<open>tipo\<close>, \<^verbatim>\<open>hora\<close>, \<^verbatim>\<open>cantidad\<close> and \<^verbatim>\<open>notas\<close>,
  wherever these columns stand; an amount or note whose column is missing or whose value
  is empty is absent. Lines may end in LF or in CR LF, and empty lines are dropped, so
  that the first non-empty line is the header.
\<close>

theorem fromCSV_header_driven:
  assumes "distinct (map trim ns)" and "join [comma] ns \<noteq> []"
    and "\<forall>n\<in>set ns. comma \<notin> set n \<and> LF \<notin> set n \<and> CR \<notin> set n"
    and "\<forall>vs\<in>set vss. vs \<noteq> [] \<and> (\<forall>v\<in>set vs. LF \<notin> set v)"
    and "\<forall>l\<in>set ls. LF \<notin> set l \<and> (l \<noteq> [] \<longrightarrow> last l \<noteq> CR)"
  shows "fromCSV (join [LF] (join [comma] ns # map (\<lambda>vs. join [comma] (map escape vs)) vss)) =
           Inr (map (\<lambda>vs. recordOf (map_of (zip (map trim ns) vs))) vss) \<and>
         fromCSV (join [CR, LF] ls) = fromCSV (join [LF] ls) \<and>
         fromCSV (join [LF] ls) = fromCSV (join [LF] (filter (\<lambda>l. l \<noteq> []) ls)) \<and>
         (''cantidad'' \<notin> set (map trim ns) \<longrightarrow>
            amount (recordOf (map_of (zip (map trim ns) vs))) = None) \<and>
         (''notas'' \<notin> set (map trim ns) \<longrightarrow>
            notes' (recordOf (map_of (zip (map trim ns) vs))) = None) \<and>
         (map_of (zip (map trim ns) vs) ''cantidad'' = Some [] \<longrightarrow>
            amount (recordOf (map_of (zip (map trim ns) vs))) = None) \<and>
         (map_of (zip (map trim ns) vs) ''notas'' = Some [] \<longrightarrow>
            notes' (recordOf (map_of (zip (map trim ns) vs))) = None)"
proof -
  let ?hs = "map trim ns"
  have k: "k \<notin> set ?hs \<Longrightarrow> map_of (zip ?hs vs) k = None" for k
    by (auto simp: map_of_eq_None_iff dest: set_zip_leftD)
  have a: "''cantidad'' \<notin> set ?hs \<longrightarrow> amount (recordOf (map_of (zip ?hs vs))) = None"
    and b: "''notas'' \<notin> set ?hs \<longrightarrow> notes' (recordOf (map_of (zip ?hs vs))) = None"
    using k by (simp_all add: recordOf_def getOr_def orUndefined_def)
  have c: "map_of (zip ?hs vs) ''cantidad'' = Some [] \<longrightarrow>
           amount (recordOf (map_of (zip ?hs vs))) = None"
    and d: "map_of (zip ?hs vs) ''notas'' = Some [] \<longrightarrow>
            notes' (recordOf (map_of (zip ?hs vs))) = None"
    by (simp_all add: recordOf_def getOr_def orUndefined_def)
  from fromCSV_table [OF assms(1-4)] fromCSV_CRLF [OF assms(5)] fromCSV_blank_lines [OF assms(5)]
    a b c d show ?thesis by blast
qed

theorem fromCSV_header_driven_witness:
  "fromCSV (join [LF] [''notas, hora,extra ,id,tipo'',
       join [comma] (map escape [''n'', ''2024-01-01T10:00:00.000Z'', ''zzz'', ''k1'', ''leche''])]) =
     Inr [\<lparr> id' = ''k1'', type' = ''leche'', time = ''2024-01-01T10:00:00.000Z'', amount = None,
             notes' = Some ''n'' \<rparr>] \<and>
   fromCSV (join [CR, LF] [''id'', [], [dq] @ ''k1'' @ [dq]]) = fromCSV (join [LF] [''id'', [dq] @ ''k1'' @ [dq]])"
proof -
  have h: "distinct (map trim shuffled)" "join [comma] shuffled \<noteq> []"
    "\<forall>n\<in>set shuffled. comma \<notin> set n \<and> LF \<notin> set n \<and> CR \<notin> set n"
    by code_simp+
  have v: "\<forall>vs\<in>set [[''n'', ''2024-01-01T10:00:00.000Z'', ''zzz'', ''k1'', ''leche'']].
             vs \<noteq> [] \<and> (\<forall>v\<in>set vs. LF \<notin> set v)"
    by (simp add: LF_def)
  have l: "\<forall>l\<in>set [''id'', [], [dq] @ ''k1'' @ [dq]]. LF \<notin> set l \<and> (l \<noteq> [] \<longrightarrow> last l \<noteq> CR)"
    by (simp add: LF_def CR_def dq_def)
  note th = fromCSV_header_driven [OF h v l]
  have j: "join [comma] shuffled = ''notas, hora,extra ,id,tipo''" by code_simp
  have r: "recordOf (map_of (zip (map trim shuffled)
             [''n'', ''2024-01-01T10:00:00.000Z'', ''zzz'', ''k1'', ''leche''])) =
      \<lparr> id' = ''k1'', type' = ''leche'', time = ''2024-01-01T10:00:00.000Z'', amount = None,
             notes' = Some ''n'' \<rparr>"
    by code_simp
  from th have "fromCSV (join [LF] [''notas, hora,extra ,id,tipo'',
       join [comma] (map escape [''n'', ''2024-01-01T10:00:00.000Z'', ''zzz'', ''k1'', ''leche''])]) =
     Inr [\<lparr> id' = ''k1'', type' = ''leche'', time = ''2024-01-01T10:00:00.000Z'', amount = None,
             notes' = Some ''n'' \<rparr>]"
    by (simp add: j r)
  moreover from th have "fromCSV (join [CR, LF] [''id'', [], [dq] @ ''k1'' @ [dq]]) =
      fromCSV (join [LF] [''id'', [dq] @ ''k1'' @ [dq]])"
    by simp
  ultimately show ?thesis by blast
qed





end
